theory Spec2Isabelle
  imports Main "HOL-Library.AList"
begin

section \<open>JavaScript values used by the library\<close>

text \<open>
  Errors are values. The library throws \<^verbatim>\<open>new Error(msg)\<close> with three messages; reading a
  property of \<^verbatim>\<open>undefined\<close> throws a \<^verbatim>\<open>TypeError\<close>, \<^verbatim>\<open>new Array(n)\<close> with a negative
  \<open>n\<close> a \<^verbatim>\<open>RangeError\<close>.
\<close>

datatype error = Error string | TypeError | RangeError

text \<open>
  A JavaScript number, as far as this library uses it: an integer, or one of the three
  values that are not finite. Arithmetic on the finite values is exact (the rounding of
  doubles beyond \<open>2^53\<close> is outside the model). A value of type \<^verbatim>\<open>number | undefined\<close>
  is a \<open>number option\<close>, \<open>None\<close> being \<^verbatim>\<open>undefined\<close>.
\<close>

datatype number = Fin int | PosInfinity | NegInfinity | NaN

text \<open>
  A JavaScript array is a list of optional values: reading past the end (or at a negative
  index) gives \<^verbatim>\<open>undefined\<close>, writing past the end extends the array, the cells in
  between staying \<^verbatim>\<open>undefined\<close>. A write at a negative index creates a property and
  leaves the elements alone.
\<close>

definition arr_get :: "'a option list \<Rightarrow> int \<Rightarrow> 'a option" where
  "arr_get xs i = (if 0 \<le> i \<and> i < int (length xs) then xs ! nat i else None)"

definition arr_set :: "'a option list \<Rightarrow> int \<Rightarrow> 'a option \<Rightarrow> 'a option list" where
  "arr_set xs i v =
     (if i < 0 then xs
      else if i < int (length xs) then xs[nat i := v]
      else xs @ replicate (nat i - length xs) None @ [v])"

definition arr_pop :: "'a option list \<Rightarrow> 'a option \<times> 'a option list" where
  "arr_pop xs = (if xs = [] then (None, []) else (last xs, butlast xs))"


section \<open>DAryHeap\<close>

record 'a DAryHeap =
  heap_d :: int
  heap_arr :: "'a option list"
  lessThanCompare :: "'a \<Rightarrow> 'a \<Rightarrow> int"

text \<open>A method either throws, leaving the heap as it is at the throw, or returns.\<close>

type_synonym ('r, 'a) outcome = "(error \<times> 'a DAryHeap) + ('r \<times> 'a DAryHeap)"

definition defaultLessThanCompare :: "int \<Rightarrow> int \<Rightarrow> int" where
  "defaultLessThanCompare a b = b - a"

definition size_heap :: "'a DAryHeap \<Rightarrow> int" where
  "size_heap h = int (length (heap_arr h))"

text \<open>
  \<^verbatim>\<open>Math.floor((index - 1) / this.d)\<close>: integer division rounds down as \<^verbatim>\<open>Math.floor\<close>
  does; a division by zero gives a value that is not finite.
\<close>

definition parentIndex :: "'a DAryHeap \<Rightarrow> int \<Rightarrow> number" where
  "parentIndex h index =
     (if heap_d h \<noteq> 0 then Fin ((index - 1) div heap_d h)
      else if 0 < index - 1 then PosInfinity
      else if index - 1 < 0 then NegInfinity
      else NaN)"

definition heap_at :: "'a DAryHeap \<Rightarrow> number \<Rightarrow> 'a option" where
  "heap_at h i = (case i of Fin k \<Rightarrow> arr_get (heap_arr h) k | _ \<Rightarrow> None)"

definition childIndices :: "'a DAryHeap \<Rightarrow> int \<Rightarrow> int list" where
  "childIndices h index =
     filter (\<lambda>childIndex. childIndex < size_heap h)
       (map (\<lambda>i. heap_d h * index + i) [1 .. heap_d h])"

definition isLessThan :: "'a DAryHeap \<Rightarrow> 'a option \<Rightarrow> 'a option \<Rightarrow> error + bool" where
  "isLessThan h a b =
     (case (a, b) of
        (Some x, Some y) \<Rightarrow> Inr (0 < lessThanCompare h x y)
      | _ \<Rightarrow> Inl (Error ''Invalid inputs''))"

definition swap :: "'a DAryHeap \<Rightarrow> int \<Rightarrow> int \<Rightarrow> 'a DAryHeap" where
  "swap h source destination =
     (let s = arr_get (heap_arr h) source; t = arr_get (heap_arr h) destination
      in h\<lparr>heap_arr := arr_set (arr_set (heap_arr h) source t) destination s\<rparr>)"

function swimUp :: "'a DAryHeap \<Rightarrow> int \<Rightarrow> (int, 'a) outcome" where
  "swimUp h index =
     (if index = 0 then Inr (index, h)
      else
        (case isLessThan h (arr_get (heap_arr h) index) (heap_at h (parentIndex h index)) of
           Inl e \<Rightarrow> Inl (e, h)
         | Inr lt \<Rightarrow>
             if \<not> lt then Inr (index, h)
             else (case parentIndex h index of
                     Fin p \<Rightarrow> swimUp (swap h index p) p
                   | _ \<Rightarrow> Inl (Error ''Invalid inputs'', h))))"
  by pat_completeness auto

lemma isLessThan_Inr_defined:
  "isLessThan h a b = Inr lt \<Longrightarrow> a \<noteq> None \<and> b \<noteq> None"
  by (auto simp: isLessThan_def split: option.splits)

lemma arr_get_defined: "arr_get xs i = Some y \<Longrightarrow> 0 \<le> i \<and> i < int (length xs)"
  by (auto simp: arr_get_def split: if_splits)

lemma parent_less:
  assumes "parentIndex h index = Fin p" and "0 \<le> p" and "0 \<le> index" and "index \<noteq> 0"
  shows "p < index"
proof -
  have d0: "heap_d h \<noteq> 0" and p: "p = (index - 1) div heap_d h"
    using assms(1) by (auto simp: parentIndex_def split: if_splits)
  show ?thesis
  proof (cases "0 < heap_d h")
    case True
    have "(index - 1) div heap_d h \<le> (index - 1) div 1"
      using True assms(3,4) by (intro zdiv_mono2) auto
    then show ?thesis using p by simp
  next
    case False
    then have "heap_d h < 0" using d0 by simp
    then have "(index - 1) div heap_d h \<le> 0"
      using assms(3,4) by (simp add: div_nonneg_neg_le0)
    then show ?thesis using p assms(3,4) by simp
  qed
qed

termination swimUp
proof (relation "measure (\<lambda>(h, index). nat index)", goal_cases)
  case 1
  show ?case by simp
next
  case (2 h index lt p)
  from 2(2) have a: "arr_get (heap_arr h) index \<noteq> None" and b: "heap_at h (parentIndex h index) \<noteq> None"
    using isLessThan_Inr_defined by blast+
  from b 2(4) have "arr_get (heap_arr h) p \<noteq> None" by (simp add: heap_at_def)
  then have "0 \<le> p" by (auto dest: arr_get_defined)
  moreover from a have "0 \<le> index" by (auto dest: arr_get_defined)
  moreover have "index \<noteq> 0" using 2(1) .
  ultimately have "p < index" using parent_less 2(4) by blast
  then show ?case using \<open>0 \<le> p\<close> by simp
qed


text \<open>
  The \<^verbatim>\<open>reduce\<close> of \<^verbatim>\<open>sinkDown\<close>: among the children, the index whose value the
  comparator ranks least, the accumulator starting at the first child.
\<close>

fun minValueChild :: "'a DAryHeap \<Rightarrow> int list \<Rightarrow> int \<Rightarrow> error + int" where
  "minValueChild h [] minValueIndex = Inr minValueIndex"
| "minValueChild h (currentIndex # rest) minValueIndex =
     (case isLessThan h (arr_get (heap_arr h) currentIndex) (arr_get (heap_arr h) minValueIndex) of
        Inl e \<Rightarrow> Inl e
      | Inr lt \<Rightarrow> minValueChild h rest (if lt then currentIndex else minValueIndex))"

function sinkDown :: "'a DAryHeap \<Rightarrow> int \<Rightarrow> (int, 'a) outcome" where
  "sinkDown h index =
     (case childIndices h index of
        [] \<Rightarrow> Inr (index, h)
      | first # rest \<Rightarrow>
          (case minValueChild h (first # rest) first of
             Inl e \<Rightarrow> Inl (e, h)
           | Inr minValueChildIndex \<Rightarrow>
               (case isLessThan h (arr_get (heap_arr h) index)
                                  (arr_get (heap_arr h) minValueChildIndex) of
                  Inl e \<Rightarrow> Inl (e, h)
                | Inr lt \<Rightarrow>
                    if lt then Inr (index, h)
                    else sinkDown (swap h index minValueChildIndex) minValueChildIndex)))"
  by pat_completeness auto

lemma minValueChild_mem:
  "minValueChild h cs m0 = Inr m \<Longrightarrow> m = m0 \<or> m \<in> set cs"
  by (induction cs arbitrary: m0) (auto split: sum.splits if_splits)

lemma childIndices_greater:
  assumes "c \<in> set (childIndices h index)" and "0 \<le> index"
  shows "index < c"
proof -
  have lo: "1 + heap_d h * index \<le> c" and hi: "c \<le> heap_d h + heap_d h * index"
    using assms(1) by (auto simp: childIndices_def)
  then have "1 \<le> heap_d h" by simp
  then have "1 * index \<le> heap_d h * index"
    using assms(2) by (intro mult_right_mono) auto
  then show ?thesis using lo by simp
qed

lemma length_arr_set_inside:
  "0 \<le> i \<Longrightarrow> i < int (length xs) \<Longrightarrow> length (arr_set xs i v) = length xs"
  by (simp add: arr_set_def)

lemma length_swap_inside:
  assumes "arr_get (heap_arr h) i = Some x" and "arr_get (heap_arr h) j = Some y"
  shows "length (heap_arr (swap h i j)) = length (heap_arr h)"
  using arr_get_defined[OF assms(1)] arr_get_defined[OF assms(2)]
  by (simp add: swap_def Let_def length_arr_set_inside)

termination sinkDown
proof (relation "measure (\<lambda>(h, index). length (heap_arr h) - nat index)", goal_cases)
  case 1
  show ?case by simp
next
  case (2 h index first rest m lt)
  from 2(3) obtain x y where x: "arr_get (heap_arr h) index = Some x"
      and y: "arr_get (heap_arr h) m = Some y"
    using isLessThan_Inr_defined by fastforce
  have mem: "m \<in> set (childIndices h index)"
    using minValueChild_mem[OF 2(2)] 2(1) by auto
  have i0: "0 \<le> index" using arr_get_defined[OF x] by simp
  have "index < m" using childIndices_greater[OF mem i0] .
  moreover have "m < int (length (heap_arr h))" using arr_get_defined[OF y] by simp
  moreover have "length (heap_arr (swap h index m)) = length (heap_arr h)"
    using length_swap_inside[OF x y] .
  ultimately show ?case using i0 by simp
qed

declare swimUp.simps [simp del] sinkDown.simps [simp del]

definition insert_heap :: "'a DAryHeap \<Rightarrow> 'a \<Rightarrow> (int, 'a) outcome" where
  "insert_heap h v =
     (let h1 = h\<lparr>heap_arr := heap_arr h @ [Some v]\<rparr>
      in swimUp h1 (size_heap h1 - 1))"

definition peek :: "'a DAryHeap \<Rightarrow> 'a option" where
  "peek h = arr_get (heap_arr h) 0"

definition poll :: "'a DAryHeap \<Rightarrow> ('a option, 'a) outcome" where
  "poll h =
     (if size_heap h = 0 then Inr (None, h)
      else
        (let h1 = swap h 0 (size_heap h - 1);
             (v, arr) = arr_pop (heap_arr h1);
             h2 = h1\<lparr>heap_arr := arr\<rparr>
         in case sinkDown h2 0 of
              Inl (e, h3) \<Rightarrow> Inl (e, h3)
            | Inr (_, h3) \<Rightarrow> Inr (v, h3)))"

text \<open>
  The index of \<^verbatim>\<open>removeAtIndex\<close> is an array index, a natural number: a negative index
  would address a property of the array object, which the model of arrays does not keep.
\<close>

definition removeAtIndex :: "'a DAryHeap \<Rightarrow> nat \<Rightarrow> (unit, 'a) outcome" where
  "removeAtIndex h index =
     (let h1 = swap h (int index) (size_heap h - 1);
          h2 = h1\<lparr>heap_arr := snd (arr_pop (heap_arr h1))\<rparr>
      in case swimUp h2 (int index) of
           Inl (e, h3) \<Rightarrow> Inl (e, h3)
         | Inr (_, h3) \<Rightarrow>
             (case sinkDown h3 (int index) of
                Inl (e, h4) \<Rightarrow> Inl (e, h4)
              | Inr (_, h4) \<Rightarrow> Inr ((), h4)))"

function heapify_loop :: "'a DAryHeap \<Rightarrow> int \<Rightarrow> (unit, 'a) outcome" where
  "heapify_loop h i =
     (if 0 \<le> i then
        (case sinkDown h i of
           Inl (e, h1) \<Rightarrow> Inl (e, h1)
         | Inr (_, h1) \<Rightarrow> heapify_loop h1 (i - 1))
      else Inr ((), h))"
  by pat_completeness auto

termination heapify_loop
  by (relation "measure (\<lambda>(h, i). nat (i + 1))") auto

declare heapify_loop.simps [simp del]

text \<open>
  \<^verbatim>\<open>heapify\<close> runs \<^verbatim>\<open>for (let i = lastNonLeafIndex; i >= 0; i--) sinkDown(i)\<close>. With
  \<open>d = 0\<close> and three values or more \<^verbatim>\<open>lastNonLeafIndex\<close> is \<^verbatim>\<open>Infinity\<close>: each
  \<^verbatim>\<open>sinkDown(Infinity)\<close> returns at once (no child index exists when \<open>d = 0\<close>) and
  \<^verbatim>\<open>i--\<close> leaves \<^verbatim>\<open>Infinity\<close>, so the loop never ends; the result \<open>None\<close> says so.
  \<^verbatim>\<open>-Infinity >= 0\<close> and \<^verbatim>\<open>NaN >= 0\<close> are false: no iteration.
\<close>

definition heapify :: "'a DAryHeap \<Rightarrow> 'a list \<Rightarrow> (unit, 'a) outcome option" where
  "heapify h vs =
     (let h1 = h\<lparr>heap_arr := map Some vs\<rparr>
      in case parentIndex h1 (size_heap h1 - 1) of
           Fin lastNonLeafIndex \<Rightarrow> Some (heapify_loop h1 lastNonLeafIndex)
         | PosInfinity \<Rightarrow> None
         | NegInfinity \<Rightarrow> Some (Inr ((), h1))
         | NaN \<Rightarrow> Some (Inr ((), h1)))"

text \<open>
  The constructor, at the class's default element type \<^verbatim>\<open>T = number\<close>, where the default
  comparator \<^verbatim>\<open>(a, b) => b - a\<close> has a meaning. The second argument is an array of values
  (\<open>Inl\<close>) or a comparator (\<open>Inr\<close>).
\<close>

definition new_DAryHeap ::
  "int \<Rightarrow> (int list + (int \<Rightarrow> int \<Rightarrow> int)) option \<Rightarrow> (int \<Rightarrow> int \<Rightarrow> int) option
     \<Rightarrow> (unit, int) outcome option" where
  "new_DAryHeap d valuesOrCompare compare =
     (let compare1 = (case compare of None \<Rightarrow> defaultLessThanCompare | Some c \<Rightarrow> c);
          compare2 = (case valuesOrCompare of Some (Inr f) \<Rightarrow> f | _ \<Rightarrow> compare1);
          h = \<lparr>heap_d = d, heap_arr = [], lessThanCompare = compare2\<rparr>
      in case valuesOrCompare of
           Some (Inl vs) \<Rightarrow> heapify h vs
         | _ \<Rightarrow> Some (Inr ((), h)))"


section \<open>Graph storage: three backends\<close>

text \<open>
  Vertex indices are integers. A \<^verbatim>\<open>Map\<close> with number keys is an association list in
  insertion order: \<^verbatim>\<open>set\<close> on a key already there replaces the value in place, on a
  new key appends (\<open>AList.update\<close>), \<^verbatim>\<open>get\<close> and \<^verbatim>\<open>has\<close> are \<open>map_of\<close>,
  \<^verbatim>\<open>keys()\<close> is \<open>map fst\<close>.
\<close>

definition NegativeVertex :: error where
  "NegativeVertex = Error ''Negative vertex is not allowed''"

definition OutOfGraphBound :: error where
  "OutOfGraphBound = Error ''Out of graph bound''"

subsection \<open>AdjacencyList_GraphStorage\<close>

record AdjacencyList_GraphStorage =
  al_vertices :: int
  adjacencyList :: "(int \<times> (int \<times> number) list) list"

definition new_AdjacencyList :: "int option \<Rightarrow> AdjacencyList_GraphStorage" where
  "new_AdjacencyList size' =
     \<lparr>al_vertices = (case size' of None \<Rightarrow> 0 | Some n \<Rightarrow> n), adjacencyList = []\<rparr>"

definition AL_size :: "AdjacencyList_GraphStorage \<Rightarrow> int" where
  "AL_size g = al_vertices g"

definition AL_setEdge ::
  "AdjacencyList_GraphStorage \<Rightarrow> int \<Rightarrow> int \<Rightarrow> number option \<Rightarrow> error + AdjacencyList_GraphStorage" where
  "AL_setEdge g src dst weight =
     (if src < 0 \<or> dst < 0 then Inl NegativeVertex
      else
        (let al1 = (if map_of (adjacencyList g) src = None
                    then AList.update src [] (adjacencyList g)
                    else adjacencyList g);
             w = (case weight of Some x \<Rightarrow> x | None \<Rightarrow> Fin 0);
             al2 = (case map_of al1 src of
                      Some inner \<Rightarrow> AList.update src (AList.update dst w inner) al1
                    | None \<Rightarrow> al1)
         in Inr (g\<lparr>adjacencyList := al2,
                   al_vertices := max (max (al_vertices g) (src + 1)) (dst + 1)\<rparr>)))"

definition AL_weight :: "AdjacencyList_GraphStorage \<Rightarrow> int \<Rightarrow> int \<Rightarrow> error + number" where
  "AL_weight g src dst =
     (let lastIndex = AL_size g - 1
      in if src > lastIndex \<or> dst > lastIndex then Inl OutOfGraphBound
         else (case map_of (adjacencyList g) src of
                 None \<Rightarrow> Inr PosInfinity
               | Some inner \<Rightarrow>
                   (case map_of inner dst of None \<Rightarrow> Inr PosInfinity | Some w \<Rightarrow> Inr w)))"

definition AL_neighbors :: "AdjacencyList_GraphStorage \<Rightarrow> int \<Rightarrow> error + int list" where
  "AL_neighbors g vertex =
     (let lastIndex = AL_size g - 1
      in if vertex > lastIndex then Inl OutOfGraphBound
         else Inr (case map_of (adjacencyList g) vertex of
                     None \<Rightarrow> []
                   | Some inner \<Rightarrow> map fst inner))"

subsection \<open>EdgeList_GraphStorage\<close>

record Edge =
  edge_source :: int
  edge_destination :: int
  edge_weight :: number

definition DEFAULT_WEIGHT :: number where
  "DEFAULT_WEIGHT = Fin 1"

text \<open>The setter of \<^verbatim>\<open>weight\<close>: \<^verbatim>\<open>this._weight = value ?? Edge.DEFAULT_WEIGHT\<close>.\<close>

definition set_weight :: "Edge \<Rightarrow> number option \<Rightarrow> Edge" where
  "set_weight e v = e\<lparr>edge_weight := (case v of Some x \<Rightarrow> x | None \<Rightarrow> DEFAULT_WEIGHT)\<rparr>"

definition new_Edge :: "int \<Rightarrow> int \<Rightarrow> number option \<Rightarrow> Edge" where
  "new_Edge src dst weight =
     set_weight \<lparr>edge_source = src, edge_destination = dst, edge_weight = DEFAULT_WEIGHT\<rparr> weight"

record EdgeList_GraphStorage =
  el_vertices :: int
  edges :: "Edge list"

definition new_EdgeList :: "int option \<Rightarrow> EdgeList_GraphStorage" where
  "new_EdgeList size' = \<lparr>el_vertices = (case size' of None \<Rightarrow> 0 | Some n \<Rightarrow> n), edges = []\<rparr>"

definition EL_size :: "EdgeList_GraphStorage \<Rightarrow> int" where
  "EL_size g = el_vertices g"

text \<open>\<^verbatim>\<open>Array.prototype.findIndex\<close>: the first index whose element satisfies \<open>p\<close>, or \<open>-1\<close>.\<close>

fun findIndex :: "('a \<Rightarrow> bool) \<Rightarrow> 'a list \<Rightarrow> int" where
  "findIndex p [] = -1"
| "findIndex p (x # xs) =
     (if p x then 0 else (let i = findIndex p xs in if i < 0 then -1 else i + 1))"

definition EL_setVertex :: "EdgeList_GraphStorage \<Rightarrow> int \<Rightarrow> error + EdgeList_GraphStorage" where
  "EL_setVertex g vertex =
     (if vertex < 0 then Inl NegativeVertex
      else
        (let existEdgeIndex =
               findIndex (\<lambda>e. edge_source e = vertex \<and> edge_destination e = vertex) (edges g);
             es = (if existEdgeIndex < 0
                   then edges g @ [new_Edge vertex vertex (Some (Fin 0))]
                   else edges g)
         in Inr (g\<lparr>edges := es, el_vertices := max (el_vertices g) (vertex + 1)\<rparr>)))"

definition EL_setEdge ::
  "EdgeList_GraphStorage \<Rightarrow> int \<Rightarrow> int \<Rightarrow> number option \<Rightarrow> error + EdgeList_GraphStorage" where
  "EL_setEdge g src dst weight =
     (if src < 0 \<or> dst < 0 then Inl NegativeVertex
      else
        (case EL_setVertex g src of
           Inl e \<Rightarrow> Inl e
         | Inr g1 \<Rightarrow>
             (case EL_setVertex g1 dst of
                Inl e \<Rightarrow> Inl e
              | Inr g2 \<Rightarrow>
                  (let existEdgeIndex =
                         findIndex (\<lambda>e. edge_source e = src \<and> edge_destination e = dst) (edges g2);
                       es = (if existEdgeIndex > -1
                             then (edges g2)[nat existEdgeIndex :=
                                     set_weight (edges g2 ! nat existEdgeIndex) weight]
                             else edges g2 @ [new_Edge src dst weight])
                   in Inr (g2\<lparr>edges := es,
                              el_vertices := max (max (el_vertices g2) (src + 1)) (dst + 1)\<rparr>)))))"

definition EL_weight :: "EdgeList_GraphStorage \<Rightarrow> int \<Rightarrow> int \<Rightarrow> error + number" where
  "EL_weight g src dst =
     (let lastIndex = EL_size g - 1
      in if src > lastIndex \<or> dst > lastIndex then Inl OutOfGraphBound
         else (case find (\<lambda>e. edge_source e = src \<and> edge_destination e = dst) (edges g) of
                 None \<Rightarrow> Inr PosInfinity
               | Some existEdge \<Rightarrow> Inr (edge_weight existEdge)))"

definition EL_neighbors :: "EdgeList_GraphStorage \<Rightarrow> int \<Rightarrow> error + int list" where
  "EL_neighbors g vertex =
     (let lastIndex = EL_size g - 1
      in if vertex > lastIndex then Inl OutOfGraphBound
         else Inr (concat (map (\<lambda>e. if edge_source e = vertex then [edge_destination e] else [])
                             (edges g))))"

subsection \<open>AdjacencyMatrix_GraphStorage\<close>

text \<open>
  The matrix is an array of references to row arrays, and two cells of it may hold the
  same reference. So the rows live in a store: \<open>row_store\<close> maps a row's address to its
  cells, \<open>next_row\<close> is the next free address, and \<open>adjacencyMatrix\<close> holds addresses.
  \<^verbatim>\<open>new Array(n).fill(x)\<close> evaluates \<open>x\<close> once: every cell holds the same value, for a
  row the same address. (The bound \<open>2^32 - 1\<close> on array lengths is left out.)
\<close>

record AdjacencyMatrix_GraphStorage =
  am_vertices :: int
  adjacencyMatrix :: "nat option list"
  row_store :: "nat \<Rightarrow> number option list"
  next_row :: nat

definition new_row ::
  "AdjacencyMatrix_GraphStorage \<Rightarrow> number option list \<Rightarrow> nat \<times> AdjacencyMatrix_GraphStorage" where
  "new_row g cells =
     (next_row g, g\<lparr>row_store := (row_store g)(next_row g := cells), next_row := Suc (next_row g)\<rparr>)"

definition new_AdjacencyMatrix :: "int option \<Rightarrow> error + AdjacencyMatrix_GraphStorage" where
  "new_AdjacencyMatrix size' =
     (let g0 = \<lparr>am_vertices = 0, adjacencyMatrix = [], row_store = (\<lambda>_. []), next_row = 0\<rparr>
      in case size' of
           None \<Rightarrow> Inr g0
         | Some n \<Rightarrow>
             if n < 0 then Inl RangeError
             else (let (a, g1) = new_row g0 (replicate (nat n) (Some PosInfinity))
                   in Inr (g1\<lparr>adjacencyMatrix := replicate (nat n) (Some a), am_vertices := n\<rparr>)))"

definition AM_size :: "AdjacencyMatrix_GraphStorage \<Rightarrow> int" where
  "AM_size g = am_vertices g"

text \<open>\<^verbatim>\<open>this.adjacencyMatrix[i][j] = v\<close>: a \<^verbatim>\<open>TypeError\<close> when row \<open>i\<close> is undefined.\<close>

definition set_cell ::
  "AdjacencyMatrix_GraphStorage \<Rightarrow> int \<Rightarrow> int \<Rightarrow> number \<Rightarrow> error + AdjacencyMatrix_GraphStorage" where
  "set_cell g i j v =
     (case arr_get (adjacencyMatrix g) i of
        None \<Rightarrow> Inl TypeError
      | Some a \<Rightarrow> Inr (g\<lparr>row_store := (row_store g)(a := arr_set (row_store g a) j (Some v))\<rparr>))"

text \<open>The inner loop of the growth: \<^verbatim>\<open>for (j = lastIndex + 1; j <= greaterIndex; j++)\<close>.\<close>

fun fill_cells ::
  "AdjacencyMatrix_GraphStorage \<Rightarrow> int \<Rightarrow> int list \<Rightarrow> error + AdjacencyMatrix_GraphStorage" where
  "fill_cells g i [] = Inr g"
| "fill_cells g i (j # js) =
     (case set_cell g i j PosInfinity of Inl e \<Rightarrow> Inl e | Inr g1 \<Rightarrow> fill_cells g1 i js)"

text \<open>The outer loop: \<^verbatim>\<open>for (i = 0; i <= greaterIndex; i++)\<close>.\<close>

fun grow_rows ::
  "AdjacencyMatrix_GraphStorage \<Rightarrow> int \<Rightarrow> int \<Rightarrow> int list \<Rightarrow> error + AdjacencyMatrix_GraphStorage" where
  "grow_rows g lastIndex greaterIndex [] = Inr g"
| "grow_rows g lastIndex greaterIndex (i # is) =
     (if i \<le> lastIndex then
        (case fill_cells g i [lastIndex + 1 .. greaterIndex] of
           Inl e \<Rightarrow> Inl e
         | Inr g1 \<Rightarrow> grow_rows g1 lastIndex greaterIndex is)
      else
        (let (a, g1) = new_row g (replicate (nat (greaterIndex + 1)) (Some PosInfinity))
         in grow_rows (g1\<lparr>adjacencyMatrix := arr_set (adjacencyMatrix g1) i (Some a)\<rparr>)
              lastIndex greaterIndex is))"

definition AM_setEdge ::
  "AdjacencyMatrix_GraphStorage \<Rightarrow> int \<Rightarrow> int \<Rightarrow> number option \<Rightarrow> error + AdjacencyMatrix_GraphStorage" where
  "AM_setEdge g src dst weight =
     (if src < 0 \<or> dst < 0 then Inl NegativeVertex
      else
        (let lastIndex = AM_size g - 1;
             grown =
               (if lastIndex < src \<or> lastIndex < dst then
                  (let greaterIndex = max src dst
                   in case grow_rows g lastIndex greaterIndex [0 .. greaterIndex] of
                        Inl e \<Rightarrow> Inl e
                      | Inr g1 \<Rightarrow> Inr (g1\<lparr>am_vertices := greaterIndex + 1\<rparr>))
                else Inr g)
         in case grown of
              Inl e \<Rightarrow> Inl e
            | Inr g1 \<Rightarrow> set_cell g1 src dst (case weight of Some x \<Rightarrow> x | None \<Rightarrow> Fin 0)))"

text \<open>
  \<^verbatim>\<open>weight\<close> returns the cell as it is: \<open>None\<close> is \<^verbatim>\<open>undefined\<close> (a cell that does not
  exist).
\<close>

definition AM_weight :: "AdjacencyMatrix_GraphStorage \<Rightarrow> int \<Rightarrow> int \<Rightarrow> error + number option" where
  "AM_weight g src dst =
     (let lastIndex = AM_size g - 1
      in if src > lastIndex \<or> dst > lastIndex then Inl OutOfGraphBound
         else (case arr_get (adjacencyMatrix g) src of
                 None \<Rightarrow> Inl TypeError
               | Some a \<Rightarrow> Inr (arr_get (row_store g a) dst)))"

text \<open>
  \<^verbatim>\<open>row.map((v, i) => v !== Infinity ? i : undefined).filter(i => i !== undefined)\<close>:
  the indices of the cells that hold a number other than \<^verbatim>\<open>Infinity\<close>, ascending
  (\<^verbatim>\<open>map\<close> and \<^verbatim>\<open>filter\<close> skip the holes of a row).
\<close>

definition row_neighbors :: "number option list \<Rightarrow> int list" where
  "row_neighbors cells =
     map (\<lambda>(i, c). int i)
       (filter (\<lambda>(i, c). c \<noteq> None \<and> c \<noteq> Some PosInfinity) (zip [0 ..< length cells] cells))"

definition AM_neighbors :: "AdjacencyMatrix_GraphStorage \<Rightarrow> int \<Rightarrow> error + int list" where
  "AM_neighbors g vertex =
     (let lastIndex = AM_size g - 1
      in if vertex > lastIndex then Inl OutOfGraphBound
         else (case arr_get (adjacencyMatrix g) vertex of
                 None \<Rightarrow> Inl TypeError
               | Some a \<Rightarrow> Inr (row_neighbors (row_store g a))))"

subsection \<open>Sequences of \<^verbatim>\<open>setEdge\<close> calls\<close>

type_synonym setEdge_call = "int \<times> int \<times> number option"

fun AL_setEdges ::
  "AdjacencyList_GraphStorage \<Rightarrow> setEdge_call list \<Rightarrow> error + AdjacencyList_GraphStorage" where
  "AL_setEdges g [] = Inr g"
| "AL_setEdges g ((s, d, w) # cs) =
     (case AL_setEdge g s d w of Inl e \<Rightarrow> Inl e | Inr g1 \<Rightarrow> AL_setEdges g1 cs)"

fun EL_setEdges ::
  "EdgeList_GraphStorage \<Rightarrow> setEdge_call list \<Rightarrow> error + EdgeList_GraphStorage" where
  "EL_setEdges g [] = Inr g"
| "EL_setEdges g ((s, d, w) # cs) =
     (case EL_setEdge g s d w of Inl e \<Rightarrow> Inl e | Inr g1 \<Rightarrow> EL_setEdges g1 cs)"

fun AM_setEdges ::
  "AdjacencyMatrix_GraphStorage \<Rightarrow> setEdge_call list \<Rightarrow> error + AdjacencyMatrix_GraphStorage" where
  "AM_setEdges g [] = Inr g"
| "AM_setEdges g ((s, d, w) # cs) =
     (case AM_setEdge g s d w of Inl e \<Rightarrow> Inl e | Inr g1 \<Rightarrow> AM_setEdges g1 cs)"


section \<open>IndexedPriorityQueue\<close>

text \<open>
  Modelled from the spec: the class \<^verbatim>\<open>BinaryHeap\<close> that the queue imports is not among
  the sources. The specification describes the queue as wrapping the d-ary heap with
  \<open>d = 2\<close>, so \<^verbatim>\<open>new BinaryHeap(compare)\<close> is a \<open>DAryHeap\<close> with \<open>d = 2\<close> and that
  comparator, its \<^verbatim>\<open>insert\<close> and \<^verbatim>\<open>poll\<close> are the heap's, and \<^verbatim>\<open>updateAt(index, value)\<close>
  ("an in-place update at its known index", returning the index the entry moved to)
  overwrites the cell, swims it up, sinks it down and returns where it rests.
\<close>

definition new_BinaryHeap :: "('a \<Rightarrow> 'a \<Rightarrow> int) \<Rightarrow> 'a DAryHeap" where
  "new_BinaryHeap compare = \<lparr>heap_d = 2, heap_arr = [], lessThanCompare = compare\<rparr>"

definition updateAt :: "'a DAryHeap \<Rightarrow> int \<Rightarrow> 'a \<Rightarrow> (int, 'a) outcome" where
  "updateAt h index v =
     (let h1 = h\<lparr>heap_arr := arr_set (heap_arr h) index (Some v)\<rparr>
      in case swimUp h1 index of
           Inl x \<Rightarrow> Inl x
         | Inr (i, h2) \<Rightarrow> sinkDown h2 i)"

text \<open>
  The queue itself is in the sources. An entry is a pair \<^verbatim>\<open>[value, priority]\<close>; the
  \<^verbatim>\<open>Map\<close> from values to heap indices is an association list.
\<close>

record 'v IndexedPriorityQueue =
  ipq_heap :: "('v \<times> int) DAryHeap"
  ipq_hash :: "('v \<times> int) list"

definition ipq_compare :: "'v \<times> int \<Rightarrow> 'v \<times> int \<Rightarrow> int" where
  "ipq_compare a b = snd b - snd a"

definition new_IndexedPriorityQueue :: "'v IndexedPriorityQueue" where
  "new_IndexedPriorityQueue = \<lparr>ipq_heap = new_BinaryHeap ipq_compare, ipq_hash = []\<rparr>"

definition ipq_findIndex :: "'v IndexedPriorityQueue \<Rightarrow> 'v \<Rightarrow> int" where
  "ipq_findIndex q v =
     (case map_of (ipq_hash q) v of
        Some index \<Rightarrow> if index > -1 then index else -1
      | None \<Rightarrow> -1)"

definition enqueue :: "'v IndexedPriorityQueue \<Rightarrow> 'v \<Rightarrow> int \<Rightarrow> error + 'v IndexedPriorityQueue" where
  "enqueue q v priority =
     (let index = ipq_findIndex q v
      in case (if index > -1 then updateAt (ipq_heap q) index (v, priority)
               else insert_heap (ipq_heap q) (v, priority)) of
           Inl (e, _) \<Rightarrow> Inl e
         | Inr (newIndex, h) \<Rightarrow>
             Inr (q\<lparr>ipq_heap := h, ipq_hash := AList.update v newIndex (ipq_hash q)\<rparr>))"

definition dequeue ::
  "'v IndexedPriorityQueue \<Rightarrow> error + (('v \<times> int) option \<times> 'v IndexedPriorityQueue)" where
  "dequeue q =
     (case poll (ipq_heap q) of
        Inl (e, _) \<Rightarrow> Inl e
      | Inr (item, h) \<Rightarrow>
          Inr (item, q\<lparr>ipq_heap := h,
                        ipq_hash := (case item of
                                       Some (v, _) \<Rightarrow> AList.delete v (ipq_hash q)
                                     | None \<Rightarrow> ipq_hash q)\<rparr>))"

datatype 'v ipq_call = Enqueue 'v int | Dequeue

fun ipq_calls ::
  "'v IndexedPriorityQueue \<Rightarrow> 'v ipq_call list \<Rightarrow> error + 'v IndexedPriorityQueue" where
  "ipq_calls q [] = Inr q"
| "ipq_calls q (Enqueue v p # cs) =
     (case enqueue q v p of Inl e \<Rightarrow> Inl e | Inr q1 \<Rightarrow> ipq_calls q1 cs)"
| "ipq_calls q (Dequeue # cs) =
     (case dequeue q of Inl e \<Rightarrow> Inl e | Inr (_, q1) \<Rightarrow> ipq_calls q1 cs)"

text \<open>
  The invariant the queue is meant to keep: every tracked value sits in the heap array
  at the index its map entry gives.
\<close>

definition hash_consistent :: "'v IndexedPriorityQueue \<Rightarrow> bool" where
  "hash_consistent q =
     list_all (\<lambda>(v, i). case arr_get (heap_arr (ipq_heap q)) i of
                           Some (v', _) \<Rightarrow> v' = v
                         | None \<Rightarrow> False)
       (ipq_hash q)"

text \<open>What a test would observe: the map, the values in heap order, the invariant.\<close>

definition ipq_observe ::
  "string ipq_call list \<Rightarrow> ((string \<times> int) list \<times> string option list \<times> bool) option" where
  "ipq_observe cs =
     (case ipq_calls new_IndexedPriorityQueue cs of
        Inl e \<Rightarrow> None
      | Inr q \<Rightarrow> Some (ipq_hash q, map (map_option fst) (heap_arr (ipq_heap q)), hash_consistent q))"


subsection \<open>Scenario drivers\<close>

fun insert_all :: "'a DAryHeap \<Rightarrow> 'a list \<Rightarrow> (unit, 'a) outcome" where
  "insert_all h [] = Inr ((), h)"
| "insert_all h (v # vs) =
     (case insert_heap h v of Inl x \<Rightarrow> Inl x | Inr (_, h1) \<Rightarrow> insert_all h1 vs)"

fun poll_times :: "'a DAryHeap \<Rightarrow> nat \<Rightarrow> ('a option list, 'a) outcome" where
  "poll_times h 0 = Inr ([], h)"
| "poll_times h (Suc n) =
     (case poll h of
        Inl x \<Rightarrow> Inl x
      | Inr (v, h1) \<Rightarrow>
          (case poll_times h1 n of Inl x \<Rightarrow> Inl x | Inr (vs, h2) \<Rightarrow> Inr (v # vs, h2)))"

text \<open>
  \<^verbatim>\<open>new DAryHeap(d)\<close>, the inserts in order, then \<^verbatim>\<open>peek()\<close> and \<open>n\<close> times
  \<^verbatim>\<open>poll()\<close>: the value peeked and the values polled, \<open>None\<close> if a call throws.
\<close>

definition insert_peek_poll ::
  "int \<Rightarrow> int list \<Rightarrow> nat \<Rightarrow> (int option \<times> int option list) option" where
  "insert_peek_poll d vs n =
     (case new_DAryHeap d None None of
        Some (Inr (_, h0)) \<Rightarrow>
          (case insert_all h0 vs of
             Inr (_, h) \<Rightarrow>
               (case poll_times h n of
                  Inr (polled, _) \<Rightarrow> Some (peek h, polled)
                | Inl _ \<Rightarrow> None)
           | Inl _ \<Rightarrow> None)
      | _ \<Rightarrow> None)"


definition AL_run :: "setEdge_call list \<Rightarrow> error + AdjacencyList_GraphStorage" where
  "AL_run calls = AL_setEdges (new_AdjacencyList None) calls"

definition EL_run :: "setEdge_call list \<Rightarrow> error + EdgeList_GraphStorage" where
  "EL_run calls = EL_setEdges (new_EdgeList None) calls"

definition AM_run :: "setEdge_call list \<Rightarrow> error + AdjacencyMatrix_GraphStorage" where
  "AM_run calls =
     (case new_AdjacencyMatrix None of Inl e \<Rightarrow> Inl e | Inr g \<Rightarrow> AM_setEdges g calls)"


subsection \<open>What a sequence of calls asked for\<close>

text \<open>
  The properties of the backends are stated against the calls themselves: the last
  \<^verbatim>\<open>setEdge(u, v, w)\<close> of the sequence for a pair \<open>(u, v)\<close> (\<open>None\<close> when there is none; its
  weight argument otherwise, itself \<open>None\<close> when the argument was left out), one plus the
  greatest index the calls mention, and the vertices they mention.
\<close>

fun last_call :: "setEdge_call list \<Rightarrow> int \<Rightarrow> int \<Rightarrow> number option option" where
  "last_call [] u v = None"
| "last_call ((s, d, w) # cs) u v =
     (case last_call cs u v of
        Some x \<Rightarrow> Some x
      | None \<Rightarrow> if s = u \<and> d = v then Some w else None)"

fun calls_size :: "setEdge_call list \<Rightarrow> int" where
  "calls_size [] = 0"
| "calls_size ((s, d, w) # cs) = max (max (s + 1) (d + 1)) (calls_size cs)"

definition endpoints :: "setEdge_call list \<Rightarrow> int set" where
  "endpoints cs = (\<lambda>(s, d, w). s) ` set cs \<union> (\<lambda>(s, d, w). d) ` set cs"

definition was_set :: "setEdge_call list \<Rightarrow> int \<Rightarrow> int \<Rightarrow> bool" where
  "was_set cs u v = list_ex (\<lambda>(s, d, w). s = u \<and> d = v) cs"

text \<open>Calls that pass the argument check: no negative index.\<close>

definition nonneg_calls :: "setEdge_call list \<Rightarrow> bool" where
  "nonneg_calls cs = list_all (\<lambda>(s, d, w). 0 \<le> s \<and> 0 \<le> d) cs"

text \<open>Every call gives its weight; no call gives \<^verbatim>\<open>Infinity\<close> as the weight.\<close>

definition explicit_weights :: "setEdge_call list \<Rightarrow> bool" where
  "explicit_weights cs = list_all (\<lambda>(s, d, w). w \<noteq> None) cs"

definition no_infinite_weight :: "setEdge_call list \<Rightarrow> bool" where
  "no_infinite_weight cs = list_all (\<lambda>(s, d, w). w \<noteq> Some PosInfinity) cs"

text \<open>
  The weight a call stores: the adjacency list and the matrix store 0 for a weight left
  out, \<^verbatim>\<open>Edge\<close> stores \<^verbatim>\<open>DEFAULT_WEIGHT\<close>.
\<close>

definition given_weight :: "number option \<Rightarrow> number" where
  "given_weight w = (case w of Some x \<Rightarrow> x | None \<Rightarrow> Fin 0)"

definition stored_weight :: "number option \<Rightarrow> number" where
  "stored_weight w = (case w of Some x \<Rightarrow> x | None \<Rightarrow> DEFAULT_WEIGHT)"

text \<open>
  What each backend holds for a pair \<open>(u, v)\<close>: the entry of the nested map, the first
  edge record of the list, the cell of the matrix.
\<close>

definition AL_lookup :: "AdjacencyList_GraphStorage \<Rightarrow> int \<Rightarrow> int \<Rightarrow> number option" where
  "AL_lookup g u v = (case map_of (adjacencyList g) u of None \<Rightarrow> None | Some inner \<Rightarrow> map_of inner v)"

definition is_edge :: "int \<Rightarrow> int \<Rightarrow> Edge \<Rightarrow> bool" where
  "is_edge u v e = (edge_source e = u \<and> edge_destination e = v)"

definition EL_lookup :: "EdgeList_GraphStorage \<Rightarrow> int \<Rightarrow> int \<Rightarrow> number option" where
  "EL_lookup g u v = map_option edge_weight (find (is_edge u v) (edges g))"

definition AM_cell :: "AdjacencyMatrix_GraphStorage \<Rightarrow> int \<Rightarrow> int \<Rightarrow> number option" where
  "AM_cell g u v =
     (case arr_get (adjacencyMatrix g) u of None \<Rightarrow> None | Some a \<Rightarrow> arr_get (row_store g a) v)"

text \<open>
  The matrix as the code keeps it when it starts empty: one row per vertex, every row a
  distinct array of its own, as long as the vertex count.
\<close>

definition AM_inv :: "AdjacencyMatrix_GraphStorage \<Rightarrow> bool" where
  "AM_inv g \<longleftrightarrow>
     0 \<le> am_vertices g \<and> length (adjacencyMatrix g) = nat (am_vertices g) \<and>
     distinct (adjacencyMatrix g) \<and>
     (\<forall>c \<in> set (adjacencyMatrix g).
        \<exists>a. c = Some a \<and> a < next_row g \<and> length (row_store g a) = nat (am_vertices g))"


section \<open>The heap order\<close>

text \<open>
  A comparator that orders the values: \<^verbatim>\<open>compare(a, b) >= 0\<close> reads "\<open>a\<close> ranks at or above
  \<open>b\<close>". When \<open>a\<close> is not ranked strictly above \<open>b\<close> (\<^verbatim>\<open>compare(a, b) <= 0\<close>), \<open>b\<close> ranks at or
  above \<open>a\<close>; and the ranking is transitive. The default comparator \<^verbatim>\<open>(a, b) => b - a\<close> is
  one.
\<close>

definition comparator_ok :: "('a \<Rightarrow> 'a \<Rightarrow> int) \<Rightarrow> bool" where
  "comparator_ok cmp \<longleftrightarrow>
     (\<forall>a b. cmp a b \<le> 0 \<longrightarrow> 0 \<le> cmp b a) \<and>
     (\<forall>a b c. 0 \<le> cmp a b \<and> 0 \<le> cmp b c \<longrightarrow> 0 \<le> cmp a c)"

text \<open>\<^verbatim>\<open>compare(heap[i], heap[c]) >= 0\<close>, false when one of the two cells is \<^verbatim>\<open>undefined\<close>.\<close>

definition ranks :: "'a DAryHeap \<Rightarrow> int \<Rightarrow> int \<Rightarrow> bool" where
  "ranks h i c =
     (case (arr_get (heap_arr h) i, arr_get (heap_arr h) c) of
        (Some x, Some y) \<Rightarrow> 0 \<le> lessThanCompare h x y
      | _ \<Rightarrow> False)"

text \<open>
  The heap order: every index \<open>i\<close> of the array ranks at or above each of its child indices,
  the indices \<open>d * i + 1 .. d * i + d\<close> below \<^verbatim>\<open>size()\<close> that \<^verbatim>\<open>childIndices(i)\<close> lists.
\<close>

definition heap_order :: "'a DAryHeap \<Rightarrow> bool" where
  "heap_order h \<longleftrightarrow>
     (\<forall>i \<in> set [0 .. size_heap h - 1]. \<forall>c \<in> set (childIndices h i). ranks h i c)"

text \<open>
  The four mutating methods as calls, and a sequence of calls that all return: the heap
  after the last one, \<open>None\<close> as soon as a call throws (or does not return).
\<close>

datatype 'a heap_call = Insert 'a | Poll | RemoveAtIndex nat | Heapify "'a list"

fun run_call :: "'a DAryHeap \<Rightarrow> 'a heap_call \<Rightarrow> 'a DAryHeap option" where
  "run_call h (Insert v) = (case insert_heap h v of Inl _ \<Rightarrow> None | Inr (_, h1) \<Rightarrow> Some h1)"
| "run_call h Poll = (case poll h of Inl _ \<Rightarrow> None | Inr (_, h1) \<Rightarrow> Some h1)"
| "run_call h (RemoveAtIndex i) = (case removeAtIndex h i of Inl _ \<Rightarrow> None | Inr (_, h1) \<Rightarrow> Some h1)"
| "run_call h (Heapify vs) = (case heapify h vs of Some (Inr (_, h1)) \<Rightarrow> Some h1 | _ \<Rightarrow> None)"

fun run_calls :: "'a DAryHeap \<Rightarrow> 'a heap_call list \<Rightarrow> 'a DAryHeap option" where
  "run_calls h [] = Some h"
| "run_calls h (c # cs) = (case run_call h c of None \<Rightarrow> None | Some h1 \<Rightarrow> run_calls h1 cs)"


text \<open>
  The notions the proof of the heap order works with. No cell is \<^verbatim>\<open>undefined\<close>; the value
  at an index; one index ranking at or above another; the parent of an index,
  \<^verbatim>\<open>Math.floor((c - 1) / d)\<close>.
\<close>

definition heap_full :: "'a DAryHeap \<Rightarrow> bool" where
  "heap_full h \<longleftrightarrow> None \<notin> set (heap_arr h)"

definition heap_key :: "'a DAryHeap \<Rightarrow> int \<Rightarrow> 'a" where
  "heap_key h i = the (arr_get (heap_arr h) i)"

definition heap_above :: "'a DAryHeap \<Rightarrow> int \<Rightarrow> int \<Rightarrow> bool" where
  "heap_above h i c \<longleftrightarrow> 0 \<le> lessThanCompare h (heap_key h i) (heap_key h c)"

definition parent_of :: "'a DAryHeap \<Rightarrow> int \<Rightarrow> int" where
  "parent_of h c = (c - 1) div heap_d h"

text \<open>Every index whose parent is \<open>lo\<close> or greater is ranked at or below its parent.\<close>

definition ordered_from :: "'a DAryHeap \<Rightarrow> int \<Rightarrow> bool" where
  "ordered_from h lo \<longleftrightarrow> heap_full h \<and>
     (\<forall>c. 1 \<le> c \<and> c < size_heap h \<and> lo \<le> parent_of h c \<longrightarrow> heap_above h (parent_of h c) c)"

text \<open>Two heaps with the same \<open>d\<close>, the same comparator and the same size.\<close>

definition same_shape :: "'a DAryHeap \<Rightarrow> 'a DAryHeap \<Rightarrow> bool" where
  "same_shape h h' \<longleftrightarrow> heap_d h' = heap_d h \<and> lessThanCompare h' = lessThanCompare h \<and>
     size_heap h' = size_heap h"

text \<open>
  Where \<^verbatim>\<open>sinkDown(k)\<close> may start: the order holds (from \<open>lo\<close> on) except between \<open>k\<close> and its
  children, and the parent of \<open>k\<close> ranks at or above the children of \<open>k\<close>.
\<close>

definition down_pre :: "'a DAryHeap \<Rightarrow> int \<Rightarrow> int \<Rightarrow> bool" where
  "down_pre h lo k \<longleftrightarrow> heap_full h \<and>
     (\<forall>c. 1 \<le> c \<and> c < size_heap h \<and> lo \<le> parent_of h c \<and> parent_of h c \<noteq> k \<longrightarrow>
          heap_above h (parent_of h c) c) \<and>
     (1 \<le> k \<and> lo \<le> parent_of h k \<longrightarrow>
        (\<forall>c. 1 \<le> c \<and> c < size_heap h \<and> parent_of h c = k \<longrightarrow> heap_above h (parent_of h k) c))"

text \<open>
  Where \<^verbatim>\<open>swimUp(k)\<close> may start: the order holds except between \<open>k\<close> and its parent, and the
  parent of \<open>k\<close> ranks at or above the children of \<open>k\<close>. In the weak form the order between
  \<open>k\<close> and its children is left open too, as it is after \<^verbatim>\<open>removeAtIndex\<close> has moved the last
  value to \<open>k\<close>.
\<close>

definition up_pre_weak :: "'a DAryHeap \<Rightarrow> int \<Rightarrow> bool" where
  "up_pre_weak h k \<longleftrightarrow> heap_full h \<and>
     (\<forall>c. 1 \<le> c \<and> c < size_heap h \<and> c \<noteq> k \<and> parent_of h c \<noteq> k \<longrightarrow>
          heap_above h (parent_of h c) c) \<and>
     (1 \<le> k \<longrightarrow>
        (\<forall>c. 1 \<le> c \<and> c < size_heap h \<and> parent_of h c = k \<longrightarrow> heap_above h (parent_of h k) c))"

definition up_pre :: "'a DAryHeap \<Rightarrow> int \<Rightarrow> bool" where
  "up_pre h k \<longleftrightarrow> heap_full h \<and>
     (\<forall>c. 1 \<le> c \<and> c < size_heap h \<and> c \<noteq> k \<longrightarrow> heap_above h (parent_of h c) c) \<and>
     (1 \<le> k \<longrightarrow>
        (\<forall>c. 1 \<le> c \<and> c < size_heap h \<and> parent_of h c = k \<longrightarrow> heap_above h (parent_of h k) c))"

text \<open>The heap after \<^verbatim>\<open>this.swap(index, this.size() - 1); this.heap.pop()\<close>.\<close>

definition popped :: "'a DAryHeap \<Rightarrow> int \<Rightarrow> 'a DAryHeap" where
  "popped h i = (swap h i (size_heap h - 1))
                   \<lparr>heap_arr := snd (arr_pop (heap_arr (swap h i (size_heap h - 1))))\<rparr>"

text \<open>What every returning call keeps.\<close>

definition heap_inv :: "'a DAryHeap \<Rightarrow> bool" where
  "heap_inv h \<longleftrightarrow> 1 \<le> heap_d h \<and> comparator_ok (lessThanCompare h) \<and> ordered_from h 0"


section \<open>Dfs_TopSortStrategy\<close>

text \<open>
  The strategy receives a \<^verbatim>\<open>DirectedGraph\<close>, a class of the module \<^verbatim>\<open>@root/data-structures\<close>
  whose file is not among the sources. The strategy calls two of its methods, \<^verbatim>\<open>size()\<close> and
  \<^verbatim>\<open>neighbors(vertex)\<close>, and nothing else, so a graph is taken as a parameter: the number that
  \<^verbatim>\<open>size()\<close> returns and the function that \<^verbatim>\<open>neighbors\<close> computes, which may throw (the
  storages throw \<^verbatim>\<open>Error('Out of graph bound')\<close>) or return an array of vertices in some order,
  possibly with repetitions. Neither method changes the graph.
\<close>

record DirectedGraph =
  graph_size :: int
  graph_neighbors :: "int \<Rightarrow> error + int list"

text \<open>
  \<^verbatim>\<open>execute\<close> allocates the arrays \<^verbatim>\<open>visited\<close> and \<^verbatim>\<open>order\<close> once and hands the same two arrays to
  every call of \<^verbatim>\<open>topSort\<close>, which writes into them; \<^verbatim>\<open>currentIndex\<close> goes in by value and comes
  back as the result. The state threaded through the calls is the two arrays and the index.
\<close>

record TopSortState =
  visited :: "bool option list"
  order :: "int option list"
  currentIndex :: int

text \<open>
  \<^verbatim>\<open>topSort\<close> and the loop \<^verbatim>\<open>for (const neighbor of graph.neighbors(vertex))\<close> in its body.
  \<^verbatim>\<open>topSort\<close> calls itself inside the loop; the first argument bounds the depth of the nested
  calls, and \<open>None\<close> is the run that needs a deeper nesting than that. \<^verbatim>\<open>if (visited[neighbor])\<close>
  is taken when the cell holds \<^verbatim>\<open>true\<close>; a cell read past the end is \<^verbatim>\<open>undefined\<close>.
\<close>

fun topSort :: "nat \<Rightarrow> DirectedGraph \<Rightarrow> int \<Rightarrow> TopSortState \<Rightarrow> (error + TopSortState) option"
  and topSort_neighbors ::
    "nat \<Rightarrow> DirectedGraph \<Rightarrow> int list \<Rightarrow> TopSortState \<Rightarrow> (error + TopSortState) option" where
  "topSort 0 graph vertex st = None"
| "topSort (Suc fuel) graph vertex st =
     (case graph_neighbors graph vertex of
        Inl e \<Rightarrow> Some (Inl e)
      | Inr ns \<Rightarrow>
          (case topSort_neighbors fuel graph ns st of
             None \<Rightarrow> None
           | Some (Inl e) \<Rightarrow> Some (Inl e)
           | Some (Inr st1) \<Rightarrow>
               Some (Inr (st1\<lparr>order := arr_set (order st1) (currentIndex st1) (Some vertex),
                               currentIndex := currentIndex st1 - 1\<rparr>))))"
| "topSort_neighbors fuel graph [] st = Some (Inr st)"
| "topSort_neighbors fuel graph (neighbor # rest) st =
     (if arr_get (visited st) neighbor = Some True then topSort_neighbors fuel graph rest st
      else
        (case topSort fuel graph neighbor
                (st\<lparr>visited := arr_set (visited st) neighbor (Some True)\<rparr>) of
           None \<Rightarrow> None
         | Some (Inl e) \<Rightarrow> Some (Inl e)
         | Some (Inr st1) \<Rightarrow> topSort_neighbors fuel graph rest st1))"

text \<open>The loop of \<^verbatim>\<open>execute\<close>: \<^verbatim>\<open>for (let vertex = 0; vertex < graph.size(); vertex++)\<close>.\<close>

fun execute_vertices ::
  "nat \<Rightarrow> DirectedGraph \<Rightarrow> int list \<Rightarrow> TopSortState \<Rightarrow> (error + TopSortState) option" where
  "execute_vertices fuel graph [] st = Some (Inr st)"
| "execute_vertices fuel graph (vertex # rest) st =
     (if arr_get (visited st) vertex = Some True then execute_vertices fuel graph rest st
      else
        (case topSort fuel graph vertex
                (st\<lparr>visited := arr_set (visited st) vertex (Some True)\<rparr>) of
           None \<Rightarrow> None
         | Some (Inl e) \<Rightarrow> Some (Inl e)
         | Some (Inr st1) \<Rightarrow> execute_vertices fuel graph rest st1))"

text \<open>
  \<^verbatim>\<open>execute\<close>: \<^verbatim>\<open>order\<close> is \<^verbatim>\<open>Array.from({ length: graph.size() })\<close>, every cell \<^verbatim>\<open>undefined\<close>;
  \<^verbatim>\<open>visited\<close> has the same length, every cell \<^verbatim>\<open>false\<close>; \<^verbatim>\<open>currentIndex\<close> starts at
  \<^verbatim>\<open>graph.size() - 1\<close>. The result is the array \<^verbatim>\<open>order\<close>.
\<close>

definition execute :: "nat \<Rightarrow> DirectedGraph \<Rightarrow> (error + int option list) option" where
  "execute fuel graph =
     (let st = \<lparr>visited = replicate (nat (graph_size graph)) (Some False),
                order = replicate (nat (graph_size graph)) None,
                currentIndex = graph_size graph - 1\<rparr>
      in case execute_vertices fuel graph [0 .. graph_size graph - 1] st of
           None \<Rightarrow> None
         | Some (Inl e) \<Rightarrow> Some (Inl e)
         | Some (Inr st1) \<Rightarrow> Some (Inr (order st1)))"

text \<open>
  The graph of the test of the strategies: five vertices, the edges
  \<open>(0,1), (0,2), (1,3), (2,3), (3,4)\<close>, the neighbours in the order the edges were given.
\<close>

definition test_graph :: DirectedGraph where
  "test_graph = \<lparr>graph_size = 5,
     graph_neighbors = (\<lambda>v. if v < 0 \<or> 4 < v then Inl (Error ''Out of graph bound'')
        else Inr (if v = 0 then [1, 2] else if v = 1 then [3] else if v = 2 then [3]
                  else if v = 3 then [4] else []))\<rparr>"

subsection \<open>Graphs and orders\<close>

text \<open>The neighbours of a vertex as a set, and the edges of the graph: the pairs \<open>(u, v)\<close> with
  \<open>u\<close> a vertex of the graph and \<open>v\<close> among \<^verbatim>\<open>neighbors(u)\<close>.\<close>

definition succs :: "DirectedGraph \<Rightarrow> int \<Rightarrow> int set" where
  "succs g u = (case graph_neighbors g u of Inr ns \<Rightarrow> set ns | Inl e \<Rightarrow> {})"

definition graph_edges :: "DirectedGraph \<Rightarrow> (int \<times> int) set" where
  "graph_edges g = {(u, v). 0 \<le> u \<and> u < graph_size g \<and> v \<in> succs g u}"

text \<open>
  A directed graph over the vertices \<open>0 .. size() - 1\<close>: \<^verbatim>\<open>neighbors\<close> returns at every vertex of
  the graph, and returns vertices of the graph.
\<close>

definition well_formed :: "DirectedGraph \<Rightarrow> bool" where
  "well_formed g \<longleftrightarrow> 0 \<le> graph_size g \<and>
     (\<forall>u. 0 \<le> u \<and> u < graph_size g \<longrightarrow>
        (\<exists>ns. graph_neighbors g u = Inr ns \<and> (\<forall>v \<in> set ns. 0 \<le> v \<and> v < graph_size g)))"

text \<open>A list of vertices in which every vertex comes before all of its neighbours.\<close>

fun tsorted :: "DirectedGraph \<Rightarrow> int list \<Rightarrow> bool" where
  "tsorted g [] = True"
| "tsorted g (u # ys) = (succs g u \<subseteq> set ys \<and> tsorted g ys)"

text \<open>
  What a state of the traversal holds: the vertices marked in \<^verbatim>\<open>visited\<close>, the vertices
  already written into \<^verbatim>\<open>order\<close> (the cells after \<^verbatim>\<open>currentIndex\<close>, front to back), and the
  vertices of the graph not yet marked.
\<close>

definition visited_set :: "TopSortState \<Rightarrow> int set" where
  "visited_set st = {v. arr_get (visited st) v = Some True}"

definition finished :: "TopSortState \<Rightarrow> int list" where
  "finished st = map the (drop (nat (currentIndex st + 1)) (order st))"

definition unvisited :: "DirectedGraph \<Rightarrow> TopSortState \<Rightarrow> int set" where
  "unvisited g st = {0 ..< graph_size g} - visited_set st"

text \<open>
  The invariant of the traversal: both arrays keep the length \<^verbatim>\<open>size()\<close>, the cells after
  \<^verbatim>\<open>currentIndex\<close> are filled with distinct marked vertices, each before all its neighbours.
\<close>

definition topSort_inv :: "DirectedGraph \<Rightarrow> TopSortState \<Rightarrow> bool" where
  "topSort_inv g st \<longleftrightarrow>
     length (visited st) = nat (graph_size g) \<and> length (order st) = nat (graph_size g) \<and>
     - 1 \<le> currentIndex st \<and> currentIndex st < graph_size g \<and>
     None \<notin> set (drop (nat (currentIndex st + 1)) (order st)) \<and>
     distinct (finished st) \<and> set (finished st) \<subseteq> visited_set st \<and> tsorted g (finished st)"

text \<open>
  A call \<^verbatim>\<open>topSort(graph, v, ...)\<close> starts with \<open>v\<close> marked and not yet written, and with every
  other vertex that is marked and not yet written on the call stack, hence with a path to \<open>v\<close>.
\<close>

definition topSort_pre :: "DirectedGraph \<Rightarrow> int \<Rightarrow> TopSortState \<Rightarrow> bool" where
  "topSort_pre g v st \<longleftrightarrow> topSort_inv g st \<and> v \<in> visited_set st \<and> v \<notin> set (finished st) \<and>
     (\<forall>a \<in> visited_set st - set (finished st). (a, v) \<in> (graph_edges g)\<^sup>*)"

text \<open>The loop over the neighbours writes exactly the vertices it marks.\<close>

definition neighbors_post :: "DirectedGraph \<Rightarrow> TopSortState \<Rightarrow> TopSortState \<Rightarrow> bool" where
  "neighbors_post g st st' \<longleftrightarrow> topSort_inv g st' \<and> visited_set st \<subseteq> visited_set st' \<and>
     set (finished st') = set (finished st) \<union> (visited_set st' - visited_set st)"

text \<open>The state in which \<^verbatim>\<open>execute\<close> enters its loop.\<close>

definition initial_state :: "DirectedGraph \<Rightarrow> TopSortState" where
  "initial_state g = \<lparr>visited = replicate (nat (graph_size g)) (Some False),
                order = replicate (nat (graph_size g)) None,
                currentIndex = graph_size g - 1\<rparr>"


section \<open>Properties of DAryHeap\<close>

lemma arr_get_butlast_last: "arr_get (butlast xs) (int (length xs) - 1) = None"
  by (cases xs rule: rev_cases) (auto simp: arr_get_def)

lemma swap_same_inside:
  "0 \<le> i \<Longrightarrow> i < int (length (heap_arr h)) \<Longrightarrow> swap h i i = h"
  by (simp add: swap_def arr_get_def arr_set_def Let_def)




text \<open>
  C2 (as the code has it). The default comparator \<^verbatim>\<open>(a, b) => b - a\<close> read through
  \<^verbatim>\<open>isLessThan\<close> (\<^verbatim>\<open>compare(a, b) > 0\<close>, that is \<open>a < b\<close>) makes \<^verbatim>\<open>swimUp\<close> lift the
  smaller value: the heap is a min-heap. With \<open>d = 3\<close> and the values 5, 3, 8, 1, 9
  inserted in that order, \<^verbatim>\<open>peek()\<close> returns 1 and five calls of \<^verbatim>\<open>poll()\<close>
  return 1, 3, 5, 8, 9.
\<close>

theorem C2_min_heap_scenario:
  "insert_peek_poll 3 [5, 3, 8, 1, 9] 5 = Some (Some 1, [Some 1, Some 3, Some 5, Some 8, Some 9])"
  by code_simp

text \<open>
  C2 as the specification states it (\<^verbatim>\<open>peek()\<close> returns 9, the polls return
  9, 8, 5, 3, 1) does not hold of the code.
\<close>

theorem C2_max_heap_scenario_fails:
  "insert_peek_poll 3 [5, 3, 8, 1, 9] 5 \<noteq> Some (Some 9, [Some 9, Some 8, Some 5, Some 3, Some 1])"
  by code_simp




text \<open>
  C10. On a heap of \<open>n \<ge> 2\<close> elements, \<^verbatim>\<open>removeAtIndex(n - 1)\<close> throws
  \<^verbatim>\<open>Error('Invalid inputs')\<close>, whatever \<open>d\<close>, the comparator and the contents are:
  after the swap of the last element with itself and the \<^verbatim>\<open>pop\<close>, \<^verbatim>\<open>swimUp(n - 1)\<close>
  reads past the end. At the throw the last element is gone: the size is \<open>n - 1\<close>.
\<close>

theorem C10_removeAtIndex_last_throws:
  assumes "2 \<le> length (heap_arr h)"
  shows "removeAtIndex h (length (heap_arr h) - 1) =
           Inl (Error ''Invalid inputs'', h\<lparr>heap_arr := butlast (heap_arr h)\<rparr>)
         \<and> size_heap (h\<lparr>heap_arr := butlast (heap_arr h)\<rparr>) = size_heap h - 1"
proof -
  let ?n = "length (heap_arr h)"
  have idx: "int (?n - 1) = size_heap h - 1" using assms by (simp add: size_heap_def)
  have ne: "heap_arr h \<noteq> []" using assms by auto
  let ?h2 = "h\<lparr>heap_arr := butlast (heap_arr h)\<rparr>"
  have "swimUp ?h2 (size_heap h - 1) = Inl (Error ''Invalid inputs'', ?h2)"
    using assms
    by (subst swimUp.simps) (simp add: size_heap_def isLessThan_def arr_get_butlast_last)
  then show ?thesis
    using ne assms
    by (simp add: removeAtIndex_def idx swap_same_inside arr_pop_def Let_def size_heap_def)
qed

theorem C10_removeAtIndex_last_throws_witness:
  "removeAtIndex \<lparr>heap_d = 2, heap_arr = [Some 1, Some 2], lessThanCompare = defaultLessThanCompare\<rparr> 1 =
     Inl (Error ''Invalid inputs'',
          \<lparr>heap_d = 2, heap_arr = [Some 1], lessThanCompare = defaultLessThanCompare\<rparr>)"
  using C10_removeAtIndex_last_throws
    [of "\<lparr>heap_d = 2, heap_arr = [Some 1, Some 2], lessThanCompare = defaultLessThanCompare\<rparr>"]
  by simp


subsection \<open>The heap order is kept\<close>

text \<open>Children and parents: \<open>c\<close> is among \<open>d * i + 1 .. d * i + d\<close> iff \<open>(c - 1) div d = i\<close>.\<close>

lemma child_parent:
  assumes "1 \<le> (d::int)"
  shows "d * i + 1 \<le> c \<and> c \<le> d * i + d \<longleftrightarrow> (c - 1) div d = i"
proof
  assume a: "d * i + 1 \<le> c \<and> c \<le> d * i + d"
  have "(c - 1) div d = i"
  proof (rule int_div_pos_eq[where r = "c - 1 - d * i"])
    show "c - 1 = d * i + (c - 1 - d * i)" by simp
    show "0 \<le> c - 1 - d * i" using a by simp
    show "c - 1 - d * i < d" using a by simp
  qed
  then show "(c - 1) div d = i" .
next
  assume b: "(c - 1) div d = i"
  have m: "c - 1 = d * i + (c - 1) mod d" using b by (metis mult_div_mod_eq)
  have "0 \<le> (c - 1) mod d" "(c - 1) mod d < d" using assms by simp_all
  then show "d * i + 1 \<le> c \<and> c \<le> d * i + d" using m by linarith
qed

lemma childIndices_iff:
  assumes "1 \<le> heap_d h"
  shows "c \<in> set (childIndices h i) \<longleftrightarrow> c < size_heap h \<and> parent_of h c = i"
proof -
  have "c \<in> set (childIndices h i) \<longleftrightarrow>
        c < size_heap h \<and> heap_d h * i + 1 \<le> c \<and> c \<le> heap_d h * i + heap_d h"
    by (auto simp: childIndices_def)
  then show ?thesis using child_parent[OF assms, of i c] by (simp add: parent_of_def)
qed

lemma parent_of_less:
  assumes "1 \<le> heap_d h" and "1 \<le> c"
  shows "0 \<le> parent_of h c" and "parent_of h c < c"
proof -
  show "0 \<le> parent_of h c" using assms by (simp add: parent_of_def pos_imp_zdiv_nonneg_iff)
  have "(c - 1) div heap_d h \<le> (c - 1) div 1"
    using assms by (intro zdiv_mono2) auto
  then show "parent_of h c < c" by (simp add: parent_of_def)
qed

lemma arr_get_full:
  assumes "heap_full h" and "0 \<le> i" and "i < size_heap h"
  shows "arr_get (heap_arr h) i = Some (heap_key h i)"
proof -
  have "heap_arr h ! nat i \<in> set (heap_arr h)" using assms(2,3) by (simp add: size_heap_def)
  then have "heap_arr h ! nat i \<noteq> None" using assms(1) by (metis heap_full_def)
  then show ?thesis using assms(2,3) by (auto simp: heap_key_def arr_get_def size_heap_def)
qed



lemma swap_arr:
  assumes "0 \<le> i" "i < size_heap h" "0 \<le> j" "j < size_heap h"
  shows "heap_arr (swap h i j) =
         (heap_arr h)[nat i := heap_arr h ! nat j, nat j := heap_arr h ! nat i]"
  using assms by (simp add: swap_def Let_def arr_set_def arr_get_def size_heap_def)

lemma swap_facts:
  assumes "heap_full h" "0 \<le> i" "i < size_heap h" "0 \<le> j" "j < size_heap h"
  shows "heap_full (swap h i j)"
    and "size_heap (swap h i j) = size_heap h"
    and "heap_d (swap h i j) = heap_d h"
    and "lessThanCompare (swap h i j) = lessThanCompare h"
    and "parent_of (swap h i j) = parent_of h"
    and "heap_key (swap h i j) x =
           (if x = j then heap_key h i else if x = i then heap_key h j else heap_key h x)"
proof -
  note arr = swap_arr[OF assms(2-5)]
  have ni: "heap_arr h ! nat i \<in> set (heap_arr h)" and nj: "heap_arr h ! nat j \<in> set (heap_arr h)"
    using assms(2-5) by (simp_all add: size_heap_def)
  have "set (heap_arr (swap h i j)) \<subseteq> set (heap_arr h)"
    unfolding arr using ni nj
    by (meson insert_subset order_trans set_update_subset_insert subset_refl)
  then show "heap_full (swap h i j)" using assms(1) by (auto simp: heap_full_def)
  show sz: "size_heap (swap h i j) = size_heap h" by (simp add: size_heap_def arr)
  show "heap_d (swap h i j) = heap_d h" by (simp add: swap_def Let_def)
  then show "parent_of (swap h i j) = parent_of h" by (simp add: parent_of_def fun_eq_iff)
  show "lessThanCompare (swap h i j) = lessThanCompare h" by (simp add: swap_def Let_def)
  show "heap_key (swap h i j) x =
           (if x = j then heap_key h i else if x = i then heap_key h j else heap_key h x)"
    unfolding heap_key_def arr arr_get_def using assms(2-5)
    by (auto simp: size_heap_def nth_list_update nat_eq_iff)
qed

lemma heap_above_refl:
  assumes "comparator_ok (lessThanCompare h)"
  shows "heap_above h i i"
proof (cases "lessThanCompare h (heap_key h i) (heap_key h i) \<le> 0")
  case True
  then show ?thesis using assms unfolding comparator_ok_def heap_above_def by blast
next
  case False
  then show ?thesis by (simp add: heap_above_def)
qed

lemma heap_above_trans:
  assumes "comparator_ok (lessThanCompare h)" and "heap_above h i j" and "heap_above h j k"
  shows "heap_above h i k"
  using assms unfolding comparator_ok_def heap_above_def by blast

lemma not_less_above:
  assumes "comparator_ok (lessThanCompare h)"
    and "\<not> 0 < lessThanCompare h (heap_key h i) (heap_key h j)"
  shows "heap_above h j i"
proof -
  have "lessThanCompare h (heap_key h i) (heap_key h j) \<le> 0" using assms(2) by simp
  then show ?thesis using assms(1) unfolding comparator_ok_def heap_above_def by blast
qed

lemma isLessThan_full:
  assumes "heap_full h" "0 \<le> i" "i < size_heap h" "0 \<le> j" "j < size_heap h"
  shows "isLessThan h (arr_get (heap_arr h) i) (arr_get (heap_arr h) j) =
         Inr (0 < lessThanCompare h (heap_key h i) (heap_key h j))"
  by (simp add: isLessThan_def arr_get_full[OF assms(1,2,3)] arr_get_full[OF assms(1,4,5)])

lemma minValueChild_least:
  assumes "comparator_ok (lessThanCompare h)" and "heap_full h"
    and "\<forall>c \<in> insert m0 (set cs). 0 \<le> c \<and> c < size_heap h"
    and "\<forall>c \<in> A. heap_above h m0 c"
  shows "\<exists>m. minValueChild h cs m0 = Inr m \<and> m \<in> insert m0 (set cs) \<and>
           (\<forall>c \<in> A \<union> set cs \<union> {m0}. heap_above h m c)"
  using assms(3,4)
proof (induction cs arbitrary: m0 A)
  case Nil
  then show ?case using heap_above_refl[OF assms(1)] by simp
next
  case (Cons cur rest)
  have cur: "0 \<le> cur" "cur < size_heap h" and m0: "0 \<le> m0" "m0 < size_heap h"
    using Cons.prems(1) by simp_all
  note lt = isLessThan_full[OF assms(2) cur m0]
  show ?case
  proof (cases "0 < lessThanCompare h (heap_key h cur) (heap_key h m0)")
    case True
    then have cm: "heap_above h cur m0" by (simp add: heap_above_def)
    have r: "\<forall>c \<in> insert cur (set rest). 0 \<le> c \<and> c < size_heap h" using Cons.prems(1) by simp
    have a: "\<forall>c \<in> insert m0 A. heap_above h cur c"
      using cm heap_above_trans[OF assms(1) cm] Cons.prems(2) by blast
    from Cons.IH[OF r a] obtain m where m: "minValueChild h rest cur = Inr m"
      "m \<in> insert cur (set rest)" "\<forall>c \<in> insert m0 A \<union> set rest \<union> {cur}. heap_above h m c"
      by blast
    have "minValueChild h (cur # rest) m0 = Inr m" using lt True m(1) by simp
    moreover have "m \<in> insert m0 (set (cur # rest))" using m(2) by auto
    moreover have "\<forall>c \<in> A \<union> set (cur # rest) \<union> {m0}. heap_above h m c" using m(3) by auto
    ultimately show ?thesis by blast
  next
    case False
    then have mc: "heap_above h m0 cur" by (rule not_less_above[OF assms(1)])
    have r: "\<forall>c \<in> insert m0 (set rest). 0 \<le> c \<and> c < size_heap h" using Cons.prems(1) by simp
    have a: "\<forall>c \<in> insert cur A. heap_above h m0 c" using mc Cons.prems(2) by blast
    from Cons.IH[OF r a] obtain m where m: "minValueChild h rest m0 = Inr m"
      "m \<in> insert m0 (set rest)" "\<forall>c \<in> insert cur A \<union> set rest \<union> {m0}. heap_above h m c"
      by blast
    have "minValueChild h (cur # rest) m0 = Inr m" using lt False m(1) by simp
    moreover have "m \<in> insert m0 (set (cur # rest))" using m(2) by auto
    moreover have "\<forall>c \<in> A \<union> set (cur # rest) \<union> {m0}. heap_above h m c" using m(3) by auto
    ultimately show ?thesis by blast
  qed
qed

text \<open>One swap of \<^verbatim>\<open>sinkDown\<close> with the least child, and \<^verbatim>\<open>sinkDown\<close> as a whole.\<close>

lemma down_step:
  assumes d: "1 \<le> heap_d h" and ok: "comparator_ok (lessThanCompare h)"
    and pre: "down_pre h lo k" and lo: "0 \<le> lo" "lo \<le> k"
    and m: "m < size_heap h" "parent_of h m = k"
    and least: "\<forall>c. c < size_heap h \<and> parent_of h c = k \<longrightarrow> heap_above h m c"
    and nlt: "\<not> 0 < lessThanCompare h (heap_key h k) (heap_key h m)"
  shows "down_pre (swap h k m) lo m"
proof -
  have full: "heap_full h" using pre by (simp add: down_pre_def)
  have k0: "0 \<le> k" using lo by simp
  have mc: "m \<in> set (childIndices h k)" using m childIndices_iff[OF d] by simp
  have km: "k < m" using childIndices_greater[OF mc k0] .
  have kn: "k < size_heap h" using km m(1) by simp
  have m0: "0 \<le> m" using km k0 by simp
  note sw = swap_facts[OF full k0 kn m0 m(1)]
  let ?h = "swap h k m"
  have keyk: "heap_key ?h k = heap_key h m" using km by (simp add: sw(6))
  have keym: "heap_key ?h m = heap_key h k" by (simp add: sw(6))
  have keyo: "\<And>x. x \<noteq> k \<Longrightarrow> x \<noteq> m \<Longrightarrow> heap_key ?h x = heap_key h x" by (simp add: sw(6))
  have cmp: "lessThanCompare ?h = lessThanCompare h" by (rule sw(4))
  have mk: "heap_above h m k" by (rule not_less_above[OF ok nlt])
  have p1: "heap_above ?h (parent_of h c) c"
    if c: "1 \<le> c" "c < size_heap h" "lo \<le> parent_of h c" "parent_of h c \<noteq> m" for c
  proof (cases "parent_of h c = k")
    case True
    have ck: "c \<noteq> k" using parent_of_less(2)[OF d c(1)] True by simp
    show ?thesis
    proof (cases "c = m")
      case True
      then show ?thesis using mk \<open>parent_of h c = k\<close>
        by (simp add: heap_above_def cmp keyk keym)
    next
      case False
      have "heap_above h m c" using least c(2) True by blast
      then show ?thesis using True keyo[OF ck False] by (simp add: heap_above_def cmp keyk)
    qed
  next
    case False
    have pk: "heap_key ?h (parent_of h c) = heap_key h (parent_of h c)"
      using keyo[OF False c(4)] .
    have cm: "c \<noteq> m" using False m(2) by auto
    show ?thesis
    proof (cases "c = k")
      case True
      have "1 \<le> k" "lo \<le> parent_of h k" using c(1,3) True by simp_all
      then have "heap_above h (parent_of h k) m"
        using pre m km k0 unfolding down_pre_def by auto
      moreover have "heap_key ?h (parent_of h k) = heap_key h (parent_of h k)"
        using pk True by simp
      ultimately show ?thesis using True by (simp add: heap_above_def cmp keyk)
    next
      case ck: False
      have "heap_above h (parent_of h c) c" using pre c False unfolding down_pre_def by blast
      then show ?thesis using keyo[OF ck cm] by (simp add: heap_above_def cmp pk)
    qed
  qed
  have p2: "heap_above ?h (parent_of h m) c"
    if c: "1 \<le> c" "c < size_heap h" "parent_of h c = m" for c
  proof -
    have mc: "m < c" using parent_of_less(2)[OF d c(1)] c(3) by simp
    have "lo \<le> parent_of h c" "parent_of h c \<noteq> k" using c(3) km lo by simp_all
    then have "heap_above h m c" using pre c unfolding down_pre_def by auto
    moreover have "heap_key ?h c = heap_key h c" using keyo[of c] mc km by simp
    ultimately show ?thesis by (simp add: heap_above_def cmp m(2) keyk)
  qed
  show ?thesis
    unfolding down_pre_def sw(2) sw(5)
    using sw(1) p1 p2 by blast
qed

lemma same_shape_refl: "same_shape h h"
  by (simp add: same_shape_def)

lemma same_shape_trans: "same_shape h h1 \<Longrightarrow> same_shape h1 h2 \<Longrightarrow> same_shape h h2"
  by (simp add: same_shape_def)

lemma sinkDown_ordered:
  "1 \<le> heap_d h \<Longrightarrow> comparator_ok (lessThanCompare h) \<Longrightarrow> down_pre h lo k \<Longrightarrow>
     0 \<le> lo \<Longrightarrow> lo \<le> k \<Longrightarrow>
     \<exists>j h'. sinkDown h k = Inr (j, h') \<and> ordered_from h' lo \<and> same_shape h h'"
proof (induction h k rule: sinkDown.induct)
  case (1 h index)
  note d = "1.prems"(1) and ok = "1.prems"(2) and pre = "1.prems"(3) and lo = "1.prems"(4,5)
  have full: "heap_full h" using pre by (simp add: down_pre_def)
  have k0: "0 \<le> index" using lo by simp
  show ?case
  proof (cases "childIndices h index")
    case Nil
    have res: "sinkDown h index = Inr (index, h)" by (subst sinkDown.simps) (simp add: Nil)
    have "heap_above h (parent_of h c) c"
      if c: "1 \<le> c" "c < size_heap h" "lo \<le> parent_of h c" for c
    proof -
      have "parent_of h c \<noteq> index" using childIndices_iff[OF d, of c index] c(2) Nil by auto
      then show ?thesis using pre c unfolding down_pre_def by blast
    qed
    then have "ordered_from h lo" using full unfolding ordered_from_def by blast
    then show ?thesis using res same_shape_refl by blast
  next
    case (Cons first rest)
    have rng: "\<forall>c \<in> insert first (set (first # rest)). 0 \<le> c \<and> c < size_heap h"
    proof
      fix c assume "c \<in> insert first (set (first # rest))"
      then have c: "c \<in> set (childIndices h index)" using Cons by auto
      then have "c < size_heap h" using childIndices_iff[OF d] by blast
      moreover have "index < c" using childIndices_greater[OF c k0] .
      ultimately show "0 \<le> c \<and> c < size_heap h" using k0 by simp
    qed
    have "\<exists>m. minValueChild h (first # rest) first = Inr m \<and> m \<in> insert first (set (first # rest)) \<and>
           (\<forall>c \<in> {} \<union> set (first # rest) \<union> {first}. heap_above h m c)"
      by (rule minValueChild_least[OF ok full rng]) simp
    then obtain m where mv: "minValueChild h (first # rest) first = Inr m"
      and mm: "m \<in> set (childIndices h index)"
      and least0: "\<forall>c \<in> set (childIndices h index). heap_above h m c"
      using Cons by auto
    have mn: "m < size_heap h" and pm: "parent_of h m = index"
      using mm childIndices_iff[OF d] by auto
    have km: "index < m" using childIndices_greater[OF mm k0] .
    have kn: "index < size_heap h" using km mn by simp
    have m0: "0 \<le> m" using km k0 by simp
    have least: "\<forall>c. c < size_heap h \<and> parent_of h c = index \<longrightarrow> heap_above h m c"
      using least0 childIndices_iff[OF d] by blast
    note lt = isLessThan_full[OF full k0 kn m0 mn]
    show ?thesis
    proof (cases "0 < lessThanCompare h (heap_key h index) (heap_key h m)")
      case True
      have res: "sinkDown h index = Inr (index, h)"
        by (subst sinkDown.simps) (simp add: Cons mv lt True del: minValueChild.simps)
      have km': "heap_above h index m" using True by (simp add: heap_above_def)
      have "heap_above h (parent_of h c) c"
        if c: "1 \<le> c" "c < size_heap h" "lo \<le> parent_of h c" for c
      proof (cases "parent_of h c = index")
        case True
        then have "heap_above h m c" using least c(2) by blast
        then show ?thesis using heap_above_trans[OF ok km'] True by simp
      next
        case False
        then show ?thesis using pre c unfolding down_pre_def by blast
      qed
      then have "ordered_from h lo" using full unfolding ordered_from_def by blast
      then show ?thesis using res same_shape_refl by blast
    next
      case False
      let ?h = "swap h index m"
      note sw = swap_facts[OF full k0 kn m0 mn]
      have res: "sinkDown h index = sinkDown ?h m"
        by (subst sinkDown.simps) (simp add: Cons mv lt False del: minValueChild.simps)
      have pre': "down_pre ?h lo m" by (rule down_step[OF d ok pre lo mn pm least False])
      have d': "1 \<le> heap_d ?h" using d sw(3) by simp
      have ok': "comparator_ok (lessThanCompare ?h)" using ok sw(4) by simp
      have lom: "lo \<le> m" using lo km by simp
      have "\<exists>j h'. sinkDown ?h m = Inr (j, h') \<and> ordered_from h' lo \<and> same_shape ?h h'"
        by (rule "1.IH"[OF Cons mv lt False d' ok' pre' lo(1) lom])
      then obtain j h' where r: "sinkDown ?h m = Inr (j, h')" "ordered_from h' lo" "same_shape ?h h'"
        by blast
      have "same_shape h ?h" using sw(2,3,4) by (simp add: same_shape_def)
      then have "same_shape h h'" using r(3) by (rule same_shape_trans)
      then show ?thesis using res r(1,2) by auto
    qed
  qed
qed

lemma up_pre_weaken: "up_pre h k \<Longrightarrow> up_pre_weak h k"
  unfolding up_pre_def up_pre_weak_def by blast

text \<open>One swap of \<^verbatim>\<open>swimUp\<close> with the parent, and \<^verbatim>\<open>swimUp\<close> as a whole.\<close>

lemma up_step:
  assumes d: "1 \<le> heap_d h" and ok: "comparator_ok (lessThanCompare h)"
    and pre: "up_pre_weak h k" and k: "1 \<le> k" "k < size_heap h"
    and lt: "0 < lessThanCompare h (heap_key h k) (heap_key h (parent_of h k))"
  shows "up_pre (swap h k (parent_of h k)) (parent_of h k)"
proof -
  let ?p = "parent_of h k"
  let ?h = "swap h k ?p"
  have full: "heap_full h" using pre by (simp add: up_pre_weak_def)
  have k0: "0 \<le> k" using k by simp
  have p0: "0 \<le> ?p" and pk: "?p < k" using parent_of_less[OF d k(1)] by simp_all
  have pn: "?p < size_heap h" using pk k(2) by simp
  note sw = swap_facts[OF full k0 k(2) p0 pn]
  have keyk: "heap_key ?h k = heap_key h ?p" using pk by (simp add: sw(6))
  have keyp: "heap_key ?h ?p = heap_key h k" by (simp add: sw(6))
  have keyo: "\<And>x. x \<noteq> k \<Longrightarrow> x \<noteq> ?p \<Longrightarrow> heap_key ?h x = heap_key h x" by (simp add: sw(6))
  have cmp: "lessThanCompare ?h = lessThanCompare h" by (rule sw(4))
  have kp: "heap_above h k ?p" using lt by (simp add: heap_above_def)
  have old: "heap_above h (parent_of h c) c"
    if "1 \<le> c" "c < size_heap h" "c \<noteq> k" "parent_of h c \<noteq> k" for c
    using pre that unfolding up_pre_weak_def by blast
  have grand: "heap_above h ?p c" if "1 \<le> c" "c < size_heap h" "parent_of h c = k" for c
    using pre k(1) that unfolding up_pre_weak_def by blast
  have p1: "heap_above ?h (parent_of h c) c"
    if c: "1 \<le> c" "c < size_heap h" "c \<noteq> ?p" for c
  proof (cases "c = k")
    case True
    then show ?thesis using kp by (simp add: heap_above_def cmp keyk keyp)
  next
    case ck: False
    have keyc: "heap_key ?h c = heap_key h c" using keyo[OF ck c(3)] .
    show ?thesis
    proof (cases "parent_of h c = k")
      case True
      then show ?thesis using grand[OF c(1,2) True] by (simp add: heap_above_def cmp keyk keyc)
    next
      case nk: False
      show ?thesis
      proof (cases "parent_of h c = ?p")
        case True
        have "heap_above h ?p c" using old[OF c(1,2) ck nk] True by simp
        then have "heap_above h k c" by (rule heap_above_trans[OF ok kp])
        then show ?thesis using True by (simp add: heap_above_def cmp keyp keyc)
      next
        case False
        have "heap_key ?h (parent_of h c) = heap_key h (parent_of h c)" using keyo[OF nk False] .
        then show ?thesis using old[OF c(1,2) ck nk] by (simp add: heap_above_def cmp keyc)
      qed
    qed
  qed
  have p2: "heap_above ?h (parent_of h ?p) c"
    if p1': "1 \<le> ?p" and c: "1 \<le> c" "c < size_heap h" "parent_of h c = ?p" for c
  proof -
    let ?q = "parent_of h ?p"
    have qp: "?q < ?p" using parent_of_less(2)[OF d p1'] .
    have keyq: "heap_key ?h ?q = heap_key h ?q" using keyo[of ?q] qp pk by simp
    have "parent_of h ?p \<noteq> k" using qp pk by simp
    then have qp': "heap_above h ?q ?p" using old[OF p1' pn] pk by simp
    show ?thesis
    proof (cases "c = k")
      case True
      then show ?thesis using qp' by (simp add: heap_above_def cmp keyq keyk)
    next
      case False
      have cp: "c \<noteq> ?p" using parent_of_less(2)[OF d c(1)] c(3) by simp
      have "parent_of h c \<noteq> k" using c(3) pk by simp
      then have "heap_above h ?p c" using old[OF c(1,2) False] c(3) by simp
      then have "heap_above h ?q c" by (rule heap_above_trans[OF ok qp'])
      then show ?thesis using keyo[OF False cp] by (simp add: heap_above_def cmp keyq)
    qed
  qed
  show ?thesis
    unfolding up_pre_def sw(2) sw(5)
    using sw(1) p1 p2 by blast
qed

lemma parentIndex_Fin: "1 \<le> heap_d h \<Longrightarrow> parentIndex h k = Fin (parent_of h k)"
  by (simp add: parentIndex_def parent_of_def)

lemma swimUp_ordered:
  "1 \<le> heap_d h \<Longrightarrow> comparator_ok (lessThanCompare h) \<Longrightarrow> up_pre h k \<Longrightarrow>
     0 \<le> k \<Longrightarrow> k < size_heap h \<Longrightarrow>
     \<exists>j h'. swimUp h k = Inr (j, h') \<and> ordered_from h' 0 \<and> same_shape h h'"
proof (induction h k rule: swimUp.induct)
  case (1 h index)
  note d = "1.prems"(1) and ok = "1.prems"(2) and pre = "1.prems"(3) and k = "1.prems"(4,5)
  have full: "heap_full h" using pre by (simp add: up_pre_def)
  show ?case
  proof (cases "index = 0")
    case True
    have res: "swimUp h index = Inr (index, h)" by (subst swimUp.simps) (simp add: True)
    have "ordered_from h 0" using pre True unfolding up_pre_def ordered_from_def by auto
    then show ?thesis using res same_shape_refl by blast
  next
    case False
    let ?p = "parent_of h index"
    have k1: "1 \<le> index" using False k by simp
    have p0: "0 \<le> ?p" and pk: "?p < index" using parent_of_less[OF d k1] by simp_all
    have pn: "?p < size_heap h" using pk k(2) by simp
    note pidx = parentIndex_Fin[OF d, of index]
    have lt: "isLessThan h (arr_get (heap_arr h) index) (heap_at h (parentIndex h index)) =
         Inr (0 < lessThanCompare h (heap_key h index) (heap_key h ?p))"
      using isLessThan_full[OF full k p0 pn] by (simp add: pidx heap_at_def)
    note lt' = lt[unfolded pidx]
    show ?thesis
    proof (cases "0 < lessThanCompare h (heap_key h index) (heap_key h ?p)")
      case True
      let ?h = "swap h index ?p"
      note sw = swap_facts[OF full k p0 pn]
      have res: "swimUp h index = swimUp ?h ?p"
        by (subst swimUp.simps) (simp add: False lt' True pidx)
      have pre': "up_pre ?h ?p" by (rule up_step[OF d ok up_pre_weaken[OF pre] k1 k(2) True])
      have d': "1 \<le> heap_d ?h" using d sw(3) by simp
      have ok': "comparator_ok (lessThanCompare ?h)" using ok sw(4) by simp
      have pn': "?p < size_heap ?h" using pn sw(2) by simp
      have "\<exists>j h'. swimUp ?h ?p = Inr (j, h') \<and> ordered_from h' 0 \<and> same_shape ?h h'"
        by (rule "1.IH"[OF False lt _ pidx d' ok' pre' p0 pn']) (simp add: True)
      then obtain j h' where r: "swimUp ?h ?p = Inr (j, h')" "ordered_from h' 0" "same_shape ?h h'"
        by blast
      have "same_shape h ?h" using sw(2,3,4) by (simp add: same_shape_def)
      then have "same_shape h h'" using r(3) by (rule same_shape_trans)
      then show ?thesis using res r(1,2) by auto
    next
      case nlt: False
      have res: "swimUp h index = Inr (index, h)"
        by (subst swimUp.simps) (simp add: False lt' nlt pidx)
      have pk': "heap_above h ?p index" by (rule not_less_above[OF ok nlt])
      have "heap_above h (parent_of h c) c" if c: "1 \<le> c" "c < size_heap h" for c
        using pre c pk' unfolding up_pre_def by (cases "c = index") auto
      then have "ordered_from h 0" using full unfolding ordered_from_def by blast
      then show ?thesis using res same_shape_refl by blast
    qed
  qed
qed

lemma ordered_down_pre:
  assumes d: "1 \<le> heap_d h" and ok: "comparator_ok (lessThanCompare h)" and ord: "ordered_from h 0"
  shows "down_pre h 0 k"
proof -
  have pairs: "heap_above h (parent_of h c) c" if "1 \<le> c" "c < size_heap h" for c
    using ord that parent_of_less(1)[OF d that(1)] unfolding ordered_from_def by blast
  have "heap_above h (parent_of h k) c"
    if k: "1 \<le> k" and c: "1 \<le> c" "c < size_heap h" "parent_of h c = k" for c
  proof -
    have "k < c" using parent_of_less(2)[OF d c(1)] c(3) by simp
    then have "heap_above h (parent_of h k) k" using pairs[OF k] c(2) by simp
    moreover have "heap_above h k c" using pairs[OF c(1,2)] c(3) by simp
    ultimately show ?thesis by (rule heap_above_trans[OF ok])
  qed
  then show ?thesis using ord pairs unfolding down_pre_def ordered_from_def by blast
qed

lemma swimUp_down_pre:
  assumes d: "1 \<le> heap_d h" and ok: "comparator_ok (lessThanCompare h)"
    and pre: "up_pre_weak h k" and k: "0 \<le> k" "k < size_heap h"
  shows "\<exists>j h'. swimUp h k = Inr (j, h') \<and> down_pre h' 0 k \<and> same_shape h h'"
proof -
  have full: "heap_full h" using pre by (simp add: up_pre_weak_def)
  show ?thesis
  proof (cases "k = 0")
    case True
    have res: "swimUp h k = Inr (k, h)" by (subst swimUp.simps) (simp add: True)
    have "down_pre h 0 k" using pre True unfolding up_pre_weak_def down_pre_def by auto
    then show ?thesis using res same_shape_refl by blast
  next
    case False
    let ?p = "parent_of h k"
    have k1: "1 \<le> k" using False k by simp
    have p0: "0 \<le> ?p" and pk: "?p < k" using parent_of_less[OF d k1] by simp_all
    have pn: "?p < size_heap h" using pk k(2) by simp
    note pidx = parentIndex_Fin[OF d, of k]
    have lt: "isLessThan h (arr_get (heap_arr h) k) (heap_at h (Fin ?p)) =
         Inr (0 < lessThanCompare h (heap_key h k) (heap_key h ?p))"
      using isLessThan_full[OF full k p0 pn] by (simp add: heap_at_def)
    show ?thesis
    proof (cases "0 < lessThanCompare h (heap_key h k) (heap_key h ?p)")
      case True
      let ?h = "swap h k ?p"
      note sw = swap_facts[OF full k p0 pn]
      have res: "swimUp h k = swimUp ?h ?p"
        by (subst swimUp.simps) (simp add: False lt True pidx)
      have pre': "up_pre ?h ?p" by (rule up_step[OF d ok pre k1 k(2) True])
      have d': "1 \<le> heap_d ?h" using d sw(3) by simp
      have ok': "comparator_ok (lessThanCompare ?h)" using ok sw(4) by simp
      have pn': "?p < size_heap ?h" using pn sw(2) by simp
      from swimUp_ordered[OF d' ok' pre' p0 pn']
      obtain j h' where r: "swimUp ?h ?p = Inr (j, h')" "ordered_from h' 0" "same_shape ?h h'"
        by blast
      have "same_shape h ?h" using sw(2,3,4) by (simp add: same_shape_def)
      then have ss: "same_shape h h'" using r(3) by (rule same_shape_trans)
      have "1 \<le> heap_d h'" "comparator_ok (lessThanCompare h')"
        using ss d ok by (simp_all add: same_shape_def)
      then have "down_pre h' 0 k" using r(2) by (rule ordered_down_pre)
      then show ?thesis using res r(1) ss by auto
    next
      case nlt: False
      have res: "swimUp h k = Inr (k, h)"
        by (subst swimUp.simps) (simp add: False lt nlt pidx)
      have pk': "heap_above h ?p k" by (rule not_less_above[OF ok nlt])
      have "heap_above h (parent_of h c) c"
        if c: "1 \<le> c" "c < size_heap h" "parent_of h c \<noteq> k" for c
        using pre c pk' unfolding up_pre_weak_def by (cases "c = k") auto
      then have "down_pre h 0 k" using pre unfolding down_pre_def up_pre_weak_def by blast
      then show ?thesis using res same_shape_refl by blast
    qed
  qed
qed

text \<open>The four methods.\<close>

lemma insert_heap_ordered:
  assumes d: "1 \<le> heap_d h" and ok: "comparator_ok (lessThanCompare h)" and ord: "ordered_from h 0"
  shows "\<exists>j h'. insert_heap h v = Inr (j, h') \<and> ordered_from h' 0 \<and>
           heap_d h' = heap_d h \<and> lessThanCompare h' = lessThanCompare h"
proof -
  let ?h = "h\<lparr>heap_arr := heap_arr h @ [Some v]\<rparr>"
  have full: "heap_full h" using ord by (simp add: ordered_from_def)
  have sz: "size_heap ?h = size_heap h + 1" by (simp add: size_heap_def)
  have po: "parent_of ?h = parent_of h" by (simp add: parent_of_def fun_eq_iff)
  have key: "heap_key ?h x = heap_key h x" if "x < size_heap h" for x
    using that by (auto simp: heap_key_def arr_get_def size_heap_def nth_append)
  have full': "heap_full ?h" using full by (simp add: heap_full_def)
  have pairs: "heap_above ?h (parent_of h c) c" if c: "1 \<le> c" "c < size_heap h" for c
  proof -
    have p: "0 \<le> parent_of h c" "parent_of h c < c" using parent_of_less[OF d c(1)] by simp_all
    then have "heap_above h (parent_of h c) c" using ord c unfolding ordered_from_def by blast
    moreover have "heap_key ?h (parent_of h c) = heap_key h (parent_of h c)"
      using key[of "parent_of h c"] p c by simp
    ultimately show ?thesis using key[OF c(2)] by (simp add: heap_above_def)
  qed
  have nochild: "\<not> (1 \<le> c \<and> c < size_heap ?h \<and> parent_of h c = size_heap h)" for c
    using parent_of_less(2)[OF d, of c] sz by auto
  have pre: "up_pre ?h (size_heap h)"
    unfolding up_pre_def po using full' pairs nochild sz by auto
  have d': "1 \<le> heap_d ?h" using d by simp
  have ok': "comparator_ok (lessThanCompare ?h)" using ok by simp
  have "0 \<le> size_heap h" "size_heap h < size_heap ?h" using sz by (simp_all add: size_heap_def)
  from swimUp_ordered[OF d' ok' pre this]
  obtain j h' where r: "swimUp ?h (size_heap h) = Inr (j, h')" "ordered_from h' 0" "same_shape ?h h'"
    by blast
  have "insert_heap h v = Inr (j, h')" using r(1) sz by (simp add: insert_heap_def Let_def)
  then show ?thesis using r(2,3) by (simp add: same_shape_def)
qed

lemma snd_arr_pop: "snd (arr_pop xs) = butlast xs"
  by (simp add: arr_pop_def)

lemma popped_facts:
  assumes "heap_full h" "0 \<le> i" "i < size_heap h"
  shows "heap_full (popped h i)"
    and "size_heap (popped h i) = size_heap h - 1"
    and "heap_d (popped h i) = heap_d h"
    and "lessThanCompare (popped h i) = lessThanCompare h"
    and "parent_of (popped h i) = parent_of h"
    and "x < size_heap h - 1 \<Longrightarrow>
           heap_key (popped h i) x = (if x = i then heap_key h (size_heap h - 1) else heap_key h x)"
proof -
  let ?n = "size_heap h"
  let ?s = "swap h i (?n - 1)"
  have l0: "0 \<le> ?n - 1" and l1: "?n - 1 < ?n" using assms(2,3) by simp_all
  note sw = swap_facts[OF assms l0 l1]
  have arr: "heap_arr (popped h i) = butlast (heap_arr ?s)" by (simp add: popped_def snd_arr_pop)
  have "set (butlast (heap_arr ?s)) \<subseteq> set (heap_arr ?s)" by (auto dest: in_set_butlastD)
  then show "heap_full (popped h i)" using sw(1) unfolding heap_full_def arr by blast
  show "size_heap (popped h i) = ?n - 1" using sw(2) assms(2,3) by (simp add: size_heap_def arr)
  show "heap_d (popped h i) = heap_d h" using sw(3) by (simp add: popped_def)
  then show "parent_of (popped h i) = parent_of h" by (simp add: parent_of_def fun_eq_iff)
  show "lessThanCompare (popped h i) = lessThanCompare h" using sw(4) by (simp add: popped_def)
  show "heap_key (popped h i) x = (if x = i then heap_key h (?n - 1) else heap_key h x)"
    if x: "x < ?n - 1"
  proof -
    have "arr_get (butlast (heap_arr ?s)) x = arr_get (heap_arr ?s) x"
      using x sw(2) by (auto simp: arr_get_def size_heap_def nth_butlast)
    then have "heap_key (popped h i) x = heap_key ?s x" by (simp add: heap_key_def arr)
    then show ?thesis using x by (simp add: sw(6))
  qed
qed

lemma popped_up_pre_weak:
  assumes d: "1 \<le> heap_d h" and ok: "comparator_ok (lessThanCompare h)" and ord: "ordered_from h 0"
    and i: "0 \<le> i" "i < size_heap h"
  shows "up_pre_weak (popped h i) i"
proof -
  let ?h = "popped h i"
  have full: "heap_full h" using ord by (simp add: ordered_from_def)
  note pf = popped_facts[OF full i]
  have cmp: "lessThanCompare ?h = lessThanCompare h" by (rule pf(4))
  have old: "heap_above h (parent_of h c) c" if "1 \<le> c" "c < size_heap h" for c
    using ord that parent_of_less(1)[OF d that(1)] unfolding ordered_from_def by blast
  have keyo: "heap_key ?h x = heap_key h x" if "x < size_heap h - 1" "x \<noteq> i" for x
    using pf(6)[OF that(1)] that(2) by simp
  have p1: "heap_above ?h (parent_of h c) c"
    if c: "1 \<le> c" "c < size_heap h - 1" "c \<noteq> i" "parent_of h c \<noteq> i" for c
  proof -
    have "parent_of h c < c" using parent_of_less(2)[OF d c(1)] .
    then have "heap_key ?h (parent_of h c) = heap_key h (parent_of h c)"
      using keyo[of "parent_of h c"] c(2,4) by simp
    moreover have "heap_above h (parent_of h c) c" using old c by simp
    ultimately show ?thesis using keyo[OF c(2,3)] by (simp add: heap_above_def cmp)
  qed
  have p2: "heap_above ?h (parent_of h i) c"
    if i1: "1 \<le> i" and c: "1 \<le> c" "c < size_heap h - 1" "parent_of h c = i" for c
  proof -
    have ic: "i < c" using parent_of_less(2)[OF d c(1)] c(3) by simp
    have pi: "parent_of h i < i" using parent_of_less(2)[OF d i1] .
    have "heap_above h (parent_of h i) i" using old[OF i1 i(2)] .
    moreover have "heap_above h i c" using old[of c] c by simp
    ultimately have "heap_above h (parent_of h i) c" by (rule heap_above_trans[OF ok])
    moreover have "heap_key ?h (parent_of h i) = heap_key h (parent_of h i)"
      using keyo[of "parent_of h i"] pi ic c(2) by simp
    moreover have "heap_key ?h c = heap_key h c" using keyo[of c] ic c(2) by simp
    ultimately show ?thesis by (simp add: heap_above_def cmp)
  qed
  show ?thesis
    unfolding up_pre_weak_def pf(2) pf(5)
    using pf(1) p1 p2 by blast
qed

lemma poll_ordered:
  assumes d: "1 \<le> heap_d h" and ok: "comparator_ok (lessThanCompare h)" and ord: "ordered_from h 0"
  shows "\<exists>v h'. poll h = Inr (v, h') \<and> ordered_from h' 0 \<and>
           heap_d h' = heap_d h \<and> lessThanCompare h' = lessThanCompare h"
proof (cases "size_heap h = 0")
  case True
  then show ?thesis using ord by (simp add: poll_def)
next
  case False
  have full: "heap_full h" using ord by (simp add: ordered_from_def)
  have i: "(0::int) \<le> 0" "0 < size_heap h" using False by (simp_all add: size_heap_def)
  let ?h = "popped h 0"
  note pf = popped_facts[OF full i]
  have "up_pre_weak ?h 0" by (rule popped_up_pre_weak[OF d ok ord i])
  then have pre: "down_pre ?h 0 0" unfolding up_pre_weak_def down_pre_def by auto
  have d': "1 \<le> heap_d ?h" using d pf(3) by simp
  have ok': "comparator_ok (lessThanCompare ?h)" using ok pf(4) by simp
  from sinkDown_ordered[OF d' ok' pre]
  obtain j h' where r: "sinkDown ?h 0 = Inr (j, h')" "ordered_from h' 0" "same_shape ?h h'"
    by blast
  have "poll h = Inr (fst (arr_pop (heap_arr (swap h 0 (size_heap h - 1)))), h')"
    using False r(1) by (simp add: poll_def Let_def popped_def case_prod_beta)
  then show ?thesis using r(2,3) pf(3,4) by (simp add: same_shape_def)
qed

lemma removeAtIndex_popped:
  "removeAtIndex h index =
     (case swimUp (popped h (int index)) (int index) of
        Inl (e, h3) \<Rightarrow> Inl (e, h3)
      | Inr (_, h3) \<Rightarrow>
          (case sinkDown h3 (int index) of
             Inl (e, h4) \<Rightarrow> Inl (e, h4)
           | Inr (_, h4) \<Rightarrow> Inr ((), h4)))"
  by (simp add: removeAtIndex_def popped_def Let_def)

lemma length_popped_outside:
  assumes "size_heap h - 1 \<le> int index"
  shows "length (heap_arr (popped h (int index))) = index"
  using assms
  by (auto simp: popped_def snd_arr_pop swap_def Let_def arr_set_def size_heap_def)

lemma removeAtIndex_result:
  assumes d: "1 \<le> heap_d h" and ok: "comparator_ok (lessThanCompare h)" and ord: "ordered_from h 0"
  shows "if int index < size_heap h - 1 \<or> index = 0
         then \<exists>h'. removeAtIndex h index = Inr ((), h') \<and> ordered_from h' 0 \<and>
                heap_d h' = heap_d h \<and> lessThanCompare h' = lessThanCompare h
         else removeAtIndex h index = Inl (Error ''Invalid inputs'', popped h (int index))"
proof -
  let ?i = "int index"
  let ?h = "popped h ?i"
  have full: "heap_full h" using ord by (simp add: ordered_from_def)
  consider (inside) "?i < size_heap h - 1"
    | (empty) "size_heap h - 1 \<le> ?i" "index = 0"
    | (outside) "size_heap h - 1 \<le> ?i" "index \<noteq> 0"
    by linarith
  then show ?thesis
  proof cases
    case inside
    have i: "0 \<le> ?i" "?i < size_heap h" using inside by simp_all
    note pf = popped_facts[OF full i]
    have pre: "up_pre_weak ?h ?i" by (rule popped_up_pre_weak[OF d ok ord i])
    have d': "1 \<le> heap_d ?h" using d pf(3) by simp
    have ok': "comparator_ok (lessThanCompare ?h)" using ok pf(4) by simp
    have "?i < size_heap ?h" using inside pf(2) by simp
    from swimUp_down_pre[OF d' ok' pre i(1) this]
    obtain j h3 where r3: "swimUp ?h ?i = Inr (j, h3)" "down_pre h3 0 ?i" "same_shape ?h h3"
      by blast
    have d3: "1 \<le> heap_d h3" and ok3: "comparator_ok (lessThanCompare h3)"
      using d' ok' r3(3) by (simp_all add: same_shape_def)
    from sinkDown_ordered[OF d3 ok3 r3(2) _ i(1)]
    obtain j4 h4 where r4: "sinkDown h3 ?i = Inr (j4, h4)" "ordered_from h4 0" "same_shape h3 h4"
      by auto
    have "removeAtIndex h index = Inr ((), h4)"
      by (simp add: removeAtIndex_popped r3(1) r4(1))
    moreover have "heap_d h4 = heap_d h" "lessThanCompare h4 = lessThanCompare h"
      using r4(3) r3(3) pf(3,4) by (simp_all add: same_shape_def)
    ultimately show ?thesis using inside r4(2) by simp
  next
    case empty
    have len: "heap_arr ?h = []" using length_popped_outside[OF empty(1)] empty(2) by simp
    have i0: "?i = 0" using empty(2) by simp
    have s1: "swimUp ?h ?i = Inr (0, ?h)" unfolding i0 by (subst swimUp.simps) simp
    have sz: "size_heap ?h = 0" by (simp add: size_heap_def len)
    have "c \<notin> set (childIndices ?h ?i)" for c
    proof
      assume c: "c \<in> set (childIndices ?h ?i)"
      then have "c < size_heap ?h" unfolding childIndices_def by simp
      moreover have "?i < c" by (rule childIndices_greater[OF c]) simp
      ultimately show False using sz by simp
    qed
    then have "childIndices ?h ?i = []" by (metis list.set_intros(1) neq_Nil_conv)
    then have s2: "sinkDown ?h ?i = Inr (0, ?h)" unfolding i0 by (subst sinkDown.simps) simp
    have "removeAtIndex h index = Inr ((), ?h)"
      by (simp add: removeAtIndex_popped s1 s2)
    moreover have "ordered_from ?h 0" by (auto simp: ordered_from_def heap_full_def sz len)
    moreover have "heap_d ?h = heap_d h" "lessThanCompare ?h = lessThanCompare h"
      by (simp_all add: popped_def swap_def Let_def)
    ultimately show ?thesis using empty(2) by simp
  next
    case outside
    have "arr_get (heap_arr ?h) ?i = None"
      using length_popped_outside[OF outside(1)] by (simp add: arr_get_def)
    then have "isLessThan ?h (arr_get (heap_arr ?h) ?i) b = Inl (Error ''Invalid inputs'')" for b
      by (simp add: isLessThan_def)
    then have "swimUp ?h ?i = Inl (Error ''Invalid inputs'', ?h)"
      using outside(2) by (subst swimUp.simps) simp
    then have "removeAtIndex h index = Inl (Error ''Invalid inputs'', ?h)"
      by (simp add: removeAtIndex_popped)
    then show ?thesis using outside by simp
  qed
qed


lemma heapify_loop_ordered:
  "1 \<le> heap_d h \<Longrightarrow> comparator_ok (lessThanCompare h) \<Longrightarrow> ordered_from h (k + 1) \<Longrightarrow>
     \<exists>h'. heapify_loop h k = Inr ((), h') \<and> ordered_from h' 0 \<and> same_shape h h'"
proof (induction h k rule: heapify_loop.induct)
  case (1 h i)
  note d = "1.prems"(1) and ok = "1.prems"(2) and ord = "1.prems"(3)
  have full: "heap_full h" using ord by (simp add: ordered_from_def)
  show ?case
  proof (cases "0 \<le> i")
    case False
    have res: "heapify_loop h i = Inr ((), h)" by (subst heapify_loop.simps) (simp add: False)
    have "heap_above h (parent_of h c) c" if c: "1 \<le> c" "c < size_heap h" for c
    proof -
      have "i + 1 \<le> parent_of h c" using parent_of_less(1)[OF d c(1)] False by simp
      then show ?thesis using ord c unfolding ordered_from_def by blast
    qed
    then have "ordered_from h 0" using full unfolding ordered_from_def by blast
    then show ?thesis using res same_shape_refl by blast
  next
    case True
    have "parent_of h i < i" if "1 \<le> i" using parent_of_less(2)[OF d that] .
    then have pre: "down_pre h i i"
      using ord unfolding down_pre_def ordered_from_def by auto
    from sinkDown_ordered[OF d ok pre True]
    obtain j h1 where r1: "sinkDown h i = Inr (j, h1)" "ordered_from h1 i" "same_shape h h1"
      by auto
    have d1: "1 \<le> heap_d h1" and ok1: "comparator_ok (lessThanCompare h1)"
      using d ok r1(3) by (simp_all add: same_shape_def)
    have ord1: "ordered_from h1 (i - 1 + 1)" using r1(2) by simp
    have "\<exists>h'. heapify_loop h1 (i - 1) = Inr ((), h') \<and> ordered_from h' 0 \<and> same_shape h1 h'"
      by (rule "1.IH"[OF True r1(1) _ d1 ok1 ord1]) simp
    then obtain h' where r: "heapify_loop h1 (i - 1) = Inr ((), h')" "ordered_from h' 0"
      "same_shape h1 h'" by blast
    have "heapify_loop h i = Inr ((), h')"
      by (subst heapify_loop.simps) (simp add: True r1(1) r(1))
    moreover have "same_shape h h'" using r1(3) r(3) by (rule same_shape_trans)
    ultimately show ?thesis using r(2) by blast
  qed
qed

lemma heapify_ordered:
  assumes d: "1 \<le> heap_d h" and ok: "comparator_ok (lessThanCompare h)"
  shows "\<exists>h'. heapify h vs = Some (Inr ((), h')) \<and> ordered_from h' 0 \<and>
           heap_d h' = heap_d h \<and> lessThanCompare h' = lessThanCompare h"
proof -
  let ?h = "h\<lparr>heap_arr := map Some vs\<rparr>"
  let ?k = "parent_of ?h (size_heap ?h - 1)"
  have d': "1 \<le> heap_d ?h" using d by simp
  have ok': "comparator_ok (lessThanCompare ?h)" using ok by simp
  have full: "heap_full ?h" by (auto simp: heap_full_def)
  have "\<not> ?k + 1 \<le> parent_of ?h c" if c: "c < size_heap ?h" for c
  proof -
    have "(c - 1) div heap_d h \<le> (size_heap ?h - 1 - 1) div heap_d h"
      using c d by (intro zdiv_mono1) auto
    then show ?thesis by (simp add: parent_of_def)
  qed
  then have ord: "ordered_from ?h (?k + 1)" using full unfolding ordered_from_def by blast
  from heapify_loop_ordered[OF d' ok' ord]
  obtain h' where r: "heapify_loop ?h ?k = Inr ((), h')" "ordered_from h' 0" "same_shape ?h h'"
    by blast
  have "heapify h vs = Some (Inr ((), h'))"
    using r(1) by (simp add: heapify_def Let_def parentIndex_Fin[OF d'])
  then show ?thesis using r(2,3) by (simp add: same_shape_def)
qed




text \<open>
  Which calls return on a heap in heap order: \<^verbatim>\<open>insert\<close>, \<^verbatim>\<open>poll\<close> and \<^verbatim>\<open>heapify\<close> always,
  \<^verbatim>\<open>removeAtIndex(i)\<close> when \<open>i\<close> is below the last index (or is 0 on a heap of at most one
  value); at the last index and beyond it throws.
\<close>

lemma run_call_succeeds:
  assumes "heap_inv h"
  shows "run_call h c \<noteq> None \<longleftrightarrow>
           (case c of RemoveAtIndex i \<Rightarrow> int i < size_heap h - 1 \<or> i = 0 | _ \<Rightarrow> True)"
proof -
  have d: "1 \<le> heap_d h" and ok: "comparator_ok (lessThanCompare h)" and ord: "ordered_from h 0"
    using assms(1) by (simp_all add: heap_inv_def)
  show ?thesis
  proof (cases c)
    case (Insert v)
    from insert_heap_ordered[OF d ok ord, of v] show ?thesis using Insert by auto
  next
    case Poll
    from poll_ordered[OF d ok ord] show ?thesis using Poll by auto
  next
    case (RemoveAtIndex i)
    from removeAtIndex_result[OF d ok ord, of i] show ?thesis
      using RemoveAtIndex by (auto split: if_splits)
  next
    case (Heapify vs)
    from heapify_ordered[OF d ok, of vs] show ?thesis using Heapify by auto
  qed
qed

text \<open>
  The first condition on the comparator cannot be dropped: two values \<open>a\<close>, \<open>b\<close> with
  \<^verbatim>\<open>compare(a, b) <= 0\<close> and \<^verbatim>\<open>compare(b, a) < 0\<close>, inserted as \<open>b\<close>, \<open>a\<close>, stay in that order
  and break the heap order, whatever \<open>d\<close>.
\<close>

lemma comparator_condition_needed:
  assumes d: "1 \<le> d" and ab: "cmp a b \<le> 0" and ba: "cmp b a < 0"
  shows "\<exists>h. run_calls \<lparr>heap_d = d, heap_arr = [], lessThanCompare = cmp\<rparr> [Insert b, Insert a] = Some h
           \<and> heap_arr h = [Some b, Some a] \<and> \<not> heap_order h"
proof -
  let ?h0 = "\<lparr>heap_d = d, heap_arr = [], lessThanCompare = cmp\<rparr>"
  let ?h1 = "\<lparr>heap_d = d, heap_arr = [Some b], lessThanCompare = cmp\<rparr>"
  let ?h2 = "\<lparr>heap_d = d, heap_arr = [Some b, Some a], lessThanCompare = cmp\<rparr>"
  have s1: "insert_heap ?h0 b = Inr (0, ?h1)"
    by (simp add: insert_heap_def Let_def size_heap_def) (subst swimUp.simps, simp)
  have p: "parentIndex ?h2 1 = Fin 0" using d by (simp add: parentIndex_def)
  have "swimUp ?h2 1 = Inr (1, ?h2)"
    using ab by (subst swimUp.simps) (simp add: p heap_at_def isLessThan_def arr_get_def)
  then have s2: "insert_heap ?h1 a = Inr (1, ?h2)"
    by (simp add: insert_heap_def Let_def size_heap_def)
  have run: "run_calls ?h0 [Insert b, Insert a] = Some ?h2" by (simp add: s1 s2)
  have "1 \<in> set (childIndices ?h2 0)" using d by (simp add: childIndices_def size_heap_def)
  moreover have "\<not> ranks ?h2 0 1" using ba by (simp add: ranks_def arr_get_def)
  moreover have "0 \<in> set [0 .. size_heap ?h2 - 1]" by (simp add: size_heap_def)
  ultimately have "\<not> heap_order ?h2" unfolding heap_order_def by blast
  then show ?thesis using run by simp
qed






section \<open>Properties of the graph storage\<close>

lemma arr_get_replicate: "0 \<le> i \<Longrightarrow> i < int n \<Longrightarrow> arr_get (replicate n x) i = x"
  by (simp add: arr_get_def)

lemma arr_get_arr_set_same: "0 \<le> i \<Longrightarrow> arr_get (arr_set xs i v) i = v"
  by (auto simp: arr_get_def arr_set_def nth_append)

lemma last_call_None_iff: "last_call cs u v = None \<longleftrightarrow> (\<forall>w. (u, v, w) \<notin> set cs)"
  by (induction cs) (auto split: option.splits)

lemma AL_setEdge_step:
  assumes "0 \<le> s" and "0 \<le> d"
  shows "\<exists>g'. AL_setEdge g s d w = Inr g'
           \<and> al_vertices g' = max (max (al_vertices g) (s + 1)) (d + 1)
           \<and> (\<forall>u v. AL_lookup g' u v = (if u = s \<and> v = d then Some (given_weight w) else AL_lookup g u v))"
  using assms
  by (auto simp: AL_setEdge_def AL_lookup_def Let_def update_conv' given_weight_def split: option.splits)

lemma AL_setEdge_neg: "s < 0 \<or> d < 0 \<Longrightarrow> AL_setEdge g s d w = Inl NegativeVertex"
  by (simp add: AL_setEdge_def)

lemma AL_setEdges_char:
  assumes "nonneg_calls cs" and "0 \<le> al_vertices g"
  shows "\<exists>g'. AL_setEdges g cs = Inr g'
           \<and> al_vertices g' = max (al_vertices g) (calls_size cs)
           \<and> (\<forall>u v. AL_lookup g' u v =
                 (case last_call cs u v of Some w \<Rightarrow> Some (given_weight w) | None \<Rightarrow> AL_lookup g u v))"
  using assms
proof (induction cs arbitrary: g)
  case Nil
  then show ?case by simp
next
  case (Cons c cs)
  obtain s d w where c: "c = (s, d, w)" by (cases c)
  from Cons.prems c have sd: "0 \<le> s" "0 \<le> d" and rest: "nonneg_calls cs"
    by (auto simp: nonneg_calls_def)
  from AL_setEdge_step[OF sd, of g w] obtain g1 where
    g1: "AL_setEdge g s d w = Inr g1"
    and v1: "al_vertices g1 = max (max (al_vertices g) (s + 1)) (d + 1)"
    and l1: "\<And>u v. AL_lookup g1 u v = (if u = s \<and> v = d then Some (given_weight w) else AL_lookup g u v)"
    by blast
  have "0 \<le> al_vertices g1" using v1 Cons.prems(2) by simp
  from Cons.IH[OF rest this] obtain g' where
    g': "AL_setEdges g1 cs = Inr g'"
    and v': "al_vertices g' = max (al_vertices g1) (calls_size cs)"
    and l': "\<And>u v. AL_lookup g' u v =
                 (case last_call cs u v of Some w \<Rightarrow> Some (given_weight w) | None \<Rightarrow> AL_lookup g1 u v)"
    by blast
  have "AL_setEdges g (c # cs) = Inr g'" using c g1 g' by simp
  moreover have "al_vertices g' = max (al_vertices g) (calls_size (c # cs))"
    using v' v1 c by (simp add: max.assoc)
  moreover have "AL_lookup g' u v =
      (case last_call (c # cs) u v of Some w \<Rightarrow> Some (given_weight w) | None \<Rightarrow> AL_lookup g u v)" for u v
    using l'[of u v] l1[of u v] c by (auto split: option.splits)
  ultimately show ?case by blast
qed

lemma AL_weight_lookup:
  "AL_weight g u v =
     (if u > al_vertices g - 1 \<or> v > al_vertices g - 1 then Inl OutOfGraphBound
      else Inr (case AL_lookup g u v of None \<Rightarrow> PosInfinity | Some w \<Rightarrow> w))"
  by (auto simp: AL_weight_def AL_lookup_def AL_size_def Let_def split: option.splits)

lemma AL_neighbors_lookup:
  "AL_neighbors g u =
     (if u > al_vertices g - 1 then Inl OutOfGraphBound
      else Inr (case map_of (adjacencyList g) u of None \<Rightarrow> [] | Some inner \<Rightarrow> map fst inner))"
  by (simp add: AL_neighbors_def AL_size_def Let_def)

lemma AL_neighbors_set:
  "set (case map_of (adjacencyList g) u of None \<Rightarrow> [] | Some inner \<Rightarrow> map fst inner) = {v. AL_lookup g u v \<noteq> None}"
proof (cases "map_of (adjacencyList g) u")
  case None
  then show ?thesis by (simp add: AL_lookup_def)
next
  case (Some inner)
  have "set (map fst inner) = dom (map_of inner)" by (simp add: dom_map_of_conv_image_fst)
  then show ?thesis using Some by (auto simp: AL_lookup_def)
qed

subsection \<open>Edge list\<close>

lemma findIndex_neg_iff: "findIndex p xs < 0 \<longleftrightarrow> find p xs = None"
  by (induction xs) (auto simp: Let_def)

lemma findIndex_ge_m1: "- 1 \<le> findIndex p xs"
  by (induction xs) (auto simp: Let_def)

lemma findIndex_bound: "findIndex p xs < int (length xs)"
  by (induction xs) (auto simp: Let_def)

lemma find_snoc:
  "find p (xs @ [x]) = (case find p xs of Some y \<Rightarrow> Some y | None \<Rightarrow> if p x then Some x else None)"
  by (induction xs) auto

lemma find_update_keep:
  assumes "i < length xs" and "p y = p (xs ! i)"
  shows "find p (xs[i := y]) = (if findIndex p xs = int i then Some y else find p xs)"
  using assms
proof (induction xs arbitrary: i)
  case Nil
  then show ?case by simp
next
  case (Cons x xs)
  show ?case
  proof (cases i)
    case 0
    then show ?thesis using Cons.prems findIndex_ge_m1[of p xs]
      by (auto simp: Let_def)
  next
    case (Suc j)
    then show ?thesis using Cons.prems Cons.IH[of j] findIndex_ge_m1[of p xs]
      by (auto simp: Let_def)
  qed
qed

lemma findIndex_hit:
  "0 \<le> findIndex p xs \<Longrightarrow> p (xs ! nat (findIndex p xs)) \<and> find p xs = Some (xs ! nat (findIndex p xs))"
proof (induction xs)
  case Nil
  then show ?case by simp
next
  case (Cons x xs)
  then show ?case using findIndex_ge_m1[of p xs]
    by (auto simp: Let_def nat_add_distrib split: if_splits)
qed

lemma findIndex_other:
  assumes "0 \<le> findIndex p xs" and "\<And>e. p e \<Longrightarrow> \<not> q e"
  shows "findIndex q xs \<noteq> findIndex p xs"
  using findIndex_hit[OF assms(1)] assms
  by (metis findIndex_hit)

lemma is_edge_fold: "(\<lambda>e. edge_source e = u \<and> edge_destination e = v) = is_edge u v"
  by (simp add: is_edge_def fun_eq_iff)

lemma EL_setVertex_step:
  assumes "0 \<le> x"
  shows "\<exists>g'. EL_setVertex g x = Inr g'
          \<and> el_vertices g' = max (el_vertices g) (x + 1)
          \<and> (\<forall>u v. EL_lookup g' u v =
                (if u = x \<and> v = x \<and> EL_lookup g u v = None then Some (Fin 0) else EL_lookup g u v))"
proof (cases "find (is_edge x x) (edges g)")
  case None
  then have "EL_setVertex g x =
      Inr (g\<lparr>edges := edges g @ [new_Edge x x (Some (Fin 0))], el_vertices := max (el_vertices g) (x + 1)\<rparr>)"
    using assms by (simp add: EL_setVertex_def is_edge_fold findIndex_neg_iff Let_def)
  moreover have "is_edge u v (new_Edge x x (Some (Fin 0))) \<longleftrightarrow> u = x \<and> v = x" for u v
    by (auto simp: is_edge_def new_Edge_def set_weight_def)
  moreover have "edge_weight (new_Edge x x (Some (Fin 0))) = Fin 0"
    by (simp add: new_Edge_def set_weight_def)
  ultimately show ?thesis using None
    by (auto simp: EL_lookup_def find_snoc split: option.splits)
next
  case (Some e)
  then have "\<not> findIndex (is_edge x x) (edges g) < 0" by (simp add: findIndex_neg_iff)
  then have "EL_setVertex g x = Inr (g\<lparr>edges := edges g, el_vertices := max (el_vertices g) (x + 1)\<rparr>)"
    using assms by (simp add: EL_setVertex_def is_edge_fold Let_def)
  then show ?thesis using Some by (auto simp: EL_lookup_def)
qed

lemma EL_setEdge_step:
  assumes "0 \<le> s" and "0 \<le> d"
  shows "\<exists>g'. EL_setEdge g s d w = Inr g'
          \<and> el_vertices g' = max (max (el_vertices g) (s + 1)) (d + 1)
          \<and> (\<forall>u v. EL_lookup g' u v =
                (if u = s \<and> v = d then Some (case w of Some x \<Rightarrow> x | None \<Rightarrow> DEFAULT_WEIGHT)
                 else if u = v \<and> (u = s \<or> u = d) \<and> EL_lookup g u v = None then Some (Fin 0)
                 else EL_lookup g u v))"
proof -
  from EL_setVertex_step[OF assms(1), of g] obtain g1 where
    g1: "EL_setVertex g s = Inr g1" and v1: "el_vertices g1 = max (el_vertices g) (s + 1)"
    and l1: "\<And>u v. EL_lookup g1 u v =
                (if u = s \<and> v = s \<and> EL_lookup g u v = None then Some (Fin 0) else EL_lookup g u v)"
    by blast
  from EL_setVertex_step[OF assms(2), of g1] obtain g2 where
    g2: "EL_setVertex g1 d = Inr g2" and v2: "el_vertices g2 = max (el_vertices g1) (d + 1)"
    and l2: "\<And>u v. EL_lookup g2 u v =
                (if u = d \<and> v = d \<and> EL_lookup g1 u v = None then Some (Fin 0) else EL_lookup g1 u v)"
    by blast
  let ?i = "findIndex (is_edge s d) (edges g2)"
  let ?w = "case w of Some x \<Rightarrow> x | None \<Rightarrow> DEFAULT_WEIGHT"
  let ?es = "if ?i > -1
             then (edges g2)[nat ?i := set_weight (edges g2 ! nat ?i) w]
             else edges g2 @ [new_Edge s d w]"
  let ?g' = "g2\<lparr>edges := ?es, el_vertices := max (max (el_vertices g2) (s + 1)) (d + 1)\<rparr>"
  have run: "EL_setEdge g s d w = Inr ?g'"
    using assms g1 g2 by (simp add: EL_setEdge_def is_edge_fold Let_def)
  have vs: "el_vertices ?g' = max (max (el_vertices g) (s + 1)) (d + 1)"
    using v1 v2 by simp
  have look: "EL_lookup ?g' u v = (if u = s \<and> v = d then Some ?w else EL_lookup g2 u v)" for u v
  proof (cases "?i > -1")
    case True
    then have i0: "0 \<le> ?i" by simp
    have ilen: "nat ?i < length (edges g2)" using findIndex_bound[of "is_edge s d" "edges g2"] i0 by simp
    have hit: "is_edge s d (edges g2 ! nat ?i)" using findIndex_hit[OF i0] by simp
    have keep: "is_edge u v (set_weight (edges g2 ! nat ?i) w) = is_edge u v (edges g2 ! nat ?i)"
      by (simp add: is_edge_def set_weight_def)
    have upd: "find (is_edge u v) ((edges g2)[nat ?i := set_weight (edges g2 ! nat ?i) w]) =
        (if findIndex (is_edge u v) (edges g2) = int (nat ?i)
         then Some (set_weight (edges g2 ! nat ?i) w) else find (is_edge u v) (edges g2))"
      using find_update_keep[OF ilen keep] .
    show ?thesis
    proof (cases "u = s \<and> v = d")
      case True
      then show ?thesis using \<open>?i > -1\<close> upd i0 by (simp add: EL_lookup_def set_weight_def)
    next
      case False
      have "findIndex (is_edge u v) (edges g2) \<noteq> ?i"
      proof
        assume eq: "findIndex (is_edge u v) (edges g2) = ?i"
        then have "is_edge u v (edges g2 ! nat ?i)" using findIndex_hit[of "is_edge u v" "edges g2"] i0 by simp
        with hit False show False by (auto simp: is_edge_def)
      qed
      then show ?thesis using \<open>?i > -1\<close> upd i0 False by (auto simp: EL_lookup_def)
    qed
  next
    case False
    then have none: "find (is_edge s d) (edges g2) = None"
      using findIndex_neg_iff[of "is_edge s d" "edges g2"] by simp
    have new: "is_edge u v (new_Edge s d w) \<longleftrightarrow> u = s \<and> v = d"
      by (auto simp: is_edge_def new_Edge_def set_weight_def)
    have "edge_weight (new_Edge s d w) = ?w" by (simp add: new_Edge_def set_weight_def)
    then show ?thesis using False none new
      by (auto simp: EL_lookup_def find_snoc split: option.splits)
  qed
  have "EL_lookup ?g' u v =
          (if u = s \<and> v = d then Some ?w
           else if u = v \<and> (u = s \<or> u = d) \<and> EL_lookup g u v = None then Some (Fin 0)
           else EL_lookup g u v)" for u v
    using look[of u v] l2[of u v] l1[of u v] by auto
  with run vs show ?thesis by blast
qed

lemma endpoints_Cons: "endpoints ((s, d, w) # cs) = {s, d} \<union> endpoints cs"
  by (auto simp: endpoints_def)

lemma EL_setEdges_char:
  assumes "nonneg_calls cs" and "0 \<le> el_vertices g"
  shows "\<exists>g'. EL_setEdges g cs = Inr g'
           \<and> el_vertices g' = max (el_vertices g) (calls_size cs)
           \<and> (\<forall>u v. EL_lookup g' u v =
                 (case last_call cs u v of
                    Some w \<Rightarrow> Some (stored_weight w)
                  | None \<Rightarrow> if u = v \<and> u \<in> endpoints cs \<and> EL_lookup g u v = None
                            then Some (Fin 0) else EL_lookup g u v))"
  using assms
proof (induction cs arbitrary: g)
  case Nil
  then show ?case by (simp add: endpoints_def)
next
  case (Cons c cs)
  obtain s d w where c: "c = (s, d, w)" by (cases c)
  from Cons.prems c have sd: "0 \<le> s" "0 \<le> d" and rest: "nonneg_calls cs"
    by (auto simp: nonneg_calls_def)
  from EL_setEdge_step[OF sd, of g w] obtain g1 where
    g1: "EL_setEdge g s d w = Inr g1"
    and v1: "el_vertices g1 = max (max (el_vertices g) (s + 1)) (d + 1)"
    and l1: "\<And>u v. EL_lookup g1 u v =
                (if u = s \<and> v = d then Some (stored_weight w)
                 else if u = v \<and> (u = s \<or> u = d) \<and> EL_lookup g u v = None then Some (Fin 0)
                 else EL_lookup g u v)"
    unfolding stored_weight_def by blast
  have "0 \<le> el_vertices g1" using v1 Cons.prems(2) by simp
  from Cons.IH[OF rest this] obtain g' where
    g': "EL_setEdges g1 cs = Inr g'"
    and v': "el_vertices g' = max (el_vertices g1) (calls_size cs)"
    and l': "\<And>u v. EL_lookup g' u v =
                 (case last_call cs u v of
                    Some w \<Rightarrow> Some (stored_weight w)
                  | None \<Rightarrow> if u = v \<and> u \<in> endpoints cs \<and> EL_lookup g1 u v = None
                            then Some (Fin 0) else EL_lookup g1 u v)"
    by blast
  have "EL_setEdges g (c # cs) = Inr g'" using c g1 g' by simp
  moreover have "el_vertices g' = max (el_vertices g) (calls_size (c # cs))"
    using v' v1 c by (simp add: max.assoc)
  moreover have "EL_lookup g' u v =
      (case last_call (c # cs) u v of
         Some w \<Rightarrow> Some (stored_weight w)
       | None \<Rightarrow> if u = v \<and> u \<in> endpoints (c # cs) \<and> EL_lookup g u v = None
                 then Some (Fin 0) else EL_lookup g u v)" for u v
    using l'[of u v] l1[of u v] unfolding c endpoints_Cons
    by (cases "last_call cs u v") auto
  ultimately show ?case by blast
qed

lemma EL_weight_lookup:
  "EL_weight g u v =
     (if u > el_vertices g - 1 \<or> v > el_vertices g - 1 then Inl OutOfGraphBound
      else Inr (case EL_lookup g u v of None \<Rightarrow> PosInfinity | Some w \<Rightarrow> w))"
  by (auto simp: EL_weight_def EL_lookup_def EL_size_def Let_def is_edge_fold split: option.splits)

lemma EL_neighbors_set:
  "set (concat (map (\<lambda>e. if edge_source e = u then [edge_destination e] else []) es)) =
     {v. find (is_edge u v) es \<noteq> None}"
  by (induction es) (auto simp: is_edge_def)

subsection \<open>Adjacency matrix\<close>

lemma arr_set_at_end: "arr_set xs (int (length xs)) v = xs @ [v]"
  by (simp add: arr_set_def)

lemma fill_cells_extend:
  assumes "arr_get (adjacencyMatrix g) i = Some a" and "int (length (row_store g a)) = k"
  shows "fill_cells g i [k .. gi] =
           Inr (g\<lparr>row_store := (row_store g)
                  (a := row_store g a @ replicate (nat (gi + 1 - k)) (Some PosInfinity))\<rparr>)"
  using assms
proof (induction "nat (gi + 1 - k)" arbitrary: g k)
  case 0
  then have "[k .. gi] = []" by simp
  then show ?case using 0 by simp
next
  case (Suc n)
  then have kle: "k \<le> gi" by simp
  then have upto: "[k .. gi] = k # [k + 1 .. gi]" by (simp add: upto_rec1)
  let ?g1 = "g\<lparr>row_store := (row_store g)(a := row_store g a @ [Some PosInfinity])\<rparr>"
  have sc: "set_cell g i k PosInfinity = Inr ?g1"
    using Suc.prems arr_set_at_end[of "row_store g a"] by (simp add: set_cell_def)
  have n: "n = nat (gi + 1 - (k + 1))" using Suc.hyps(2) by simp
  have a1: "arr_get (adjacencyMatrix ?g1) i = Some a" using Suc.prems by simp
  have l1: "int (length (row_store ?g1 a)) = k + 1" using Suc.prems by simp
  have "fill_cells ?g1 i [k + 1 .. gi] =
      Inr (?g1\<lparr>row_store := (row_store ?g1)
              (a := row_store ?g1 a @ replicate (nat (gi + 1 - (k + 1))) (Some PosInfinity))\<rparr>)"
    using Suc.hyps(1)[OF n a1 l1] .
  moreover have "nat (gi + 1 - k) = Suc (nat (gi + 1 - (k + 1)))" using kle by simp
  ultimately show ?case unfolding upto using sc by simp
qed

lemma grow_rows_old:
  assumes "\<forall>i \<in> set is. 0 \<le> i \<and> i \<le> li"
    and "distinct is"
    and "int (length (adjacencyMatrix g)) = li + 1"
    and "distinct (adjacencyMatrix g)"
    and "\<forall>c \<in> set (adjacencyMatrix g). \<exists>a. c = Some a"
    and "\<forall>i \<in> set is. \<forall>a. adjacencyMatrix g ! nat i = Some a \<longrightarrow> int (length (row_store g a)) = li + 1"
  shows "\<exists>g'. grow_rows g li gi is = Inr g'
           \<and> am_vertices g' = am_vertices g
           \<and> adjacencyMatrix g' = adjacencyMatrix g
           \<and> next_row g' = next_row g
           \<and> (\<forall>a. row_store g' a =
                 (if Some a \<in> (\<lambda>i. adjacencyMatrix g ! nat i) ` set is
                  then row_store g a @ replicate (nat (gi - li)) (Some PosInfinity)
                  else row_store g a))"
  using assms
proof (induction "is" arbitrary: g)
  case Nil
  then show ?case by simp
next
  case (Cons i "is")
  let ?M = "adjacencyMatrix g"
  have i: "0 \<le> i" "i \<le> li" using Cons.prems(1) by auto
  then have ilen: "nat i < length ?M" using Cons.prems(3) by simp
  then have "?M ! nat i \<in> set ?M" by (rule nth_mem)
  then obtain a where a: "?M ! nat i = Some a" using Cons.prems(5) by blast
  have get: "arr_get ?M i = Some a" using i ilen a by (simp add: arr_get_def)
  have len: "int (length (row_store g a)) = li + 1" using Cons.prems(6) a by simp
  define ext where "ext = (\<lambda>r :: number option list. r @ replicate (nat (gi - li)) (Some PosInfinity))"
  define g1 where "g1 = g\<lparr>row_store := (row_store g)(a := ext (row_store g a))\<rparr>"
  have fill: "fill_cells g i [li + 1 .. gi] = Inr g1"
    using fill_cells_extend[OF get len, of gi] by (simp add: g1_def ext_def)
  have M1: "adjacencyMatrix g1 = ?M" and N1: "next_row g1 = next_row g"
    and V1: "am_vertices g1 = am_vertices g"
    and F1: "\<And>b. row_store g1 b = (if b = a then ext (row_store g a) else row_store g b)"
    by (simp_all add: g1_def)
  have other: "?M ! nat j \<noteq> Some a" if "j \<in> set is" for j
  proof -
    have "j \<noteq> i" using that Cons.prems(2) by auto
    moreover have "0 \<le> j" "j \<le> li" using that Cons.prems(1) by auto
    ultimately have "nat j \<noteq> nat i" "nat j < length ?M" using i Cons.prems(3) by auto
    then have "?M ! nat j \<noteq> ?M ! nat i"
      using Cons.prems(4) ilen by (simp add: nth_eq_iff_index_eq)
    then show ?thesis using a by simp
  qed
  have p1: "\<forall>i \<in> set is. 0 \<le> i \<and> i \<le> li" using Cons.prems(1) by simp
  have p2: "distinct is" using Cons.prems(2) by simp
  have p3: "int (length (adjacencyMatrix g1)) = li + 1" using Cons.prems(3) M1 by simp
  have p4: "distinct (adjacencyMatrix g1)" using Cons.prems(4) M1 by simp
  have p5: "\<forall>c \<in> set (adjacencyMatrix g1). \<exists>a. c = Some a" using Cons.prems(5) M1 by simp
  have p6: "\<forall>j \<in> set is. \<forall>b. adjacencyMatrix g1 ! nat j = Some b \<longrightarrow>
              int (length (row_store g1 b)) = li + 1"
  proof (intro ballI allI impI)
    fix j b assume j: "j \<in> set is" and b: "adjacencyMatrix g1 ! nat j = Some b"
    then have "b \<noteq> a" using other[OF j] M1 by auto
    then have "row_store g1 b = row_store g b" using F1 by simp
    moreover have "int (length (row_store g b)) = li + 1" using Cons.prems(6) j b M1 by simp
    ultimately show "int (length (row_store g1 b)) = li + 1" by simp
  qed
  from Cons.IH[OF p1 p2 p3 p4 p5 p6] obtain g' where
    run: "grow_rows g1 li gi is = Inr g'"
    and V: "am_vertices g' = am_vertices g1"
    and M: "adjacencyMatrix g' = adjacencyMatrix g1"
    and N: "next_row g' = next_row g1"
    and F: "\<And>b. row_store g' b =
                 (if Some b \<in> (\<lambda>i. adjacencyMatrix g1 ! nat i) ` set is
                  then ext (row_store g1 b) else row_store g1 b)"
    unfolding ext_def by blast
  have "grow_rows g li gi (i # is) = Inr g'" using i fill run by simp
  moreover have "am_vertices g' = am_vertices g" using V V1 by simp
  moreover have "adjacencyMatrix g' = ?M" using M M1 by simp
  moreover have "next_row g' = next_row g" using N N1 by simp
  moreover have "row_store g' b =
                 (if Some b \<in> (\<lambda>i. ?M ! nat i) ` set (i # is)
                  then ext (row_store g b) else row_store g b)" for b
  proof (cases "b = a")
    case True
    have "Some a \<notin> (\<lambda>i. ?M ! nat i) ` set is"
    proof
      assume "Some a \<in> (\<lambda>i. ?M ! nat i) ` set is"
      then obtain j where "j \<in> set is" "Some a = ?M ! nat j" by (rule imageE)
      then show False using other[of j] by simp
    qed
    then have "row_store g' a = ext (row_store g a)" using F[of a] F1[of a] M1 by simp
    moreover have "Some a \<in> (\<lambda>j. ?M ! nat j) ` set (i # is)"
      by (rule image_eqI[where x = i]) (simp_all add: a)
    ultimately show ?thesis using True by simp
  next
    case False
    then have "Some b \<noteq> ?M ! nat i" using a by simp
    then have "(Some b \<in> (\<lambda>i. ?M ! nat i) ` set (i # is)) = (Some b \<in> (\<lambda>i. ?M ! nat i) ` set is)"
      by auto
    then show ?thesis using F[of b] F1[of b] False M1 by simp
  qed
  ultimately show ?case unfolding ext_def by blast
qed

lemma grow_rows_new:
  assumes "li < k" and "int (length (adjacencyMatrix g)) = k"
  shows "\<exists>g'. grow_rows g li gi [k .. gi] = Inr g'
           \<and> am_vertices g' = am_vertices g
           \<and> adjacencyMatrix g' =
               adjacencyMatrix g @ map Some [next_row g ..< next_row g + nat (gi + 1 - k)]
           \<and> next_row g' = next_row g + nat (gi + 1 - k)
           \<and> (\<forall>a. row_store g' a =
                 (if next_row g \<le> a \<and> a < next_row g + nat (gi + 1 - k)
                  then replicate (nat (gi + 1)) (Some PosInfinity)
                  else row_store g a))"
  using assms
proof (induction "nat (gi + 1 - k)" arbitrary: g k)
  case 0
  then have "[k .. gi] = []" by simp
  then show ?case using 0 by auto
next
  case (Suc n)
  then have kle: "k \<le> gi" by simp
  then have upto: "[k .. gi] = k # [k + 1 .. gi]" by (simp add: upto_rec1)
  let ?row = "replicate (nat (gi + 1)) (Some PosInfinity)"
  let ?g1 = "g\<lparr>row_store := (row_store g)(next_row g := ?row), next_row := Suc (next_row g),
               adjacencyMatrix := adjacencyMatrix g @ [Some (next_row g)]\<rparr>"
  have set: "arr_set (adjacencyMatrix g) k (Some (next_row g)) = adjacencyMatrix g @ [Some (next_row g)]"
    using arr_set_at_end[of "adjacencyMatrix g"] Suc.prems(2) by simp
  have step: "grow_rows g li gi (k # [k + 1 .. gi]) = grow_rows ?g1 li gi [k + 1 .. gi]"
    using Suc.prems(1) set by (simp add: new_row_def)
  have n: "n = nat (gi + 1 - (k + 1))" using Suc.hyps(2) by simp
  have l1: "int (length (adjacencyMatrix ?g1)) = k + 1" using Suc.prems(2) by simp
  have lt: "li < k + 1" using Suc.prems(1) by simp
  from Suc.hyps(1)[OF n lt l1] obtain g' where
    run: "grow_rows ?g1 li gi [k + 1 .. gi] = Inr g'"
    and v: "am_vertices g' = am_vertices ?g1"
    and M: "adjacencyMatrix g' =
               adjacencyMatrix ?g1 @ map Some [next_row ?g1 ..< next_row ?g1 + nat (gi + 1 - (k + 1))]"
    and N: "next_row g' = next_row ?g1 + nat (gi + 1 - (k + 1))"
    and F: "\<And>a. row_store g' a =
                 (if next_row ?g1 \<le> a \<and> a < next_row ?g1 + nat (gi + 1 - (k + 1))
                  then ?row else row_store ?g1 a)"
    by blast
  have m: "nat (gi + 1 - k) = Suc (nat (gi + 1 - (k + 1)))" using kle by simp
  have "grow_rows g li gi [k .. gi] = Inr g'" using upto step run by simp
  moreover have "am_vertices g' = am_vertices g" using v by simp
  moreover have "adjacencyMatrix g' =
               adjacencyMatrix g @ map Some [next_row g ..< next_row g + nat (gi + 1 - k)]"
  proof -
    have "[next_row g ..< next_row g + Suc n] = next_row g # [Suc (next_row g) ..< Suc (next_row g) + n]"
      by (simp add: upt_conv_Cons)
    then show ?thesis unfolding M m n[symmetric] by simp
  qed
  moreover have "next_row g' = next_row g + nat (gi + 1 - k)" unfolding N m by simp
  moreover have "row_store g' a =
                 (if next_row g \<le> a \<and> a < next_row g + nat (gi + 1 - k)
                  then ?row else row_store g a)" for a
    unfolding F m by auto
  ultimately show ?case by blast
qed

lemma grow_rows_append:
  "grow_rows g li gi (xs @ ys) =
     (case grow_rows g li gi xs of Inl e \<Rightarrow> Inl e | Inr g1 \<Rightarrow> grow_rows g1 li gi ys)"
  by (induction xs arbitrary: g) (auto split: sum.splits prod.splits)

lemma arr_get_nth: "0 \<le> i \<Longrightarrow> nat i < length xs \<Longrightarrow> arr_get xs i = xs ! nat i"
  by (auto simp: arr_get_def)

lemma arr_get_arr_set_other:
  "i \<noteq> j \<Longrightarrow> 0 \<le> j \<Longrightarrow> j < int (length xs) \<Longrightarrow> arr_get (arr_set xs j v) i = arr_get xs i"
  by (auto simp: arr_get_def arr_set_def)

lemma AM_inv_row:
  assumes "AM_inv g" and "0 \<le> u" and "u < am_vertices g"
  shows "\<exists>a. arr_get (adjacencyMatrix g) u = Some a \<and> adjacencyMatrix g ! nat u = Some a
            \<and> a < next_row g \<and> length (row_store g a) = nat (am_vertices g)"
proof -
  have len: "nat u < length (adjacencyMatrix g)" using assms by (simp add: AM_inv_def)
  then have "adjacencyMatrix g ! nat u \<in> set (adjacencyMatrix g)" by simp
  then obtain a where "adjacencyMatrix g ! nat u = Some a" "a < next_row g"
      "length (row_store g a) = nat (am_vertices g)"
    using assms(1) unfolding AM_inv_def by blast
  then show ?thesis using len assms(2) by (simp add: arr_get_nth)
qed

lemma AM_set_cell_inside:
  assumes inv: "AM_inv g" and s: "0 \<le> s" "s < am_vertices g" and d: "0 \<le> d" "d < am_vertices g"
  shows "\<exists>g'. set_cell g s d x = Inr g' \<and> AM_inv g' \<and> am_vertices g' = am_vertices g
           \<and> (\<forall>u v. 0 \<le> u \<and> u < am_vertices g \<longrightarrow>
                 AM_cell g' u v = (if u = s \<and> v = d then Some x else AM_cell g u v))"
proof -
  from AM_inv_row[OF inv s] obtain a where
    a: "arr_get (adjacencyMatrix g) s = Some a" "adjacencyMatrix g ! nat s = Some a"
       "length (row_store g a) = nat (am_vertices g)"
    by blast
  let ?g' = "g\<lparr>row_store := (row_store g)(a := arr_set (row_store g a) d (Some x))\<rparr>"
  have run: "set_cell g s d x = Inr ?g'" using a by (simp add: set_cell_def)
  have dlen: "d < int (length (row_store g a))" using a d by simp
  have len': "length (arr_set (row_store g a) d (Some x)) = length (row_store g a)"
    using d dlen by (simp add: length_arr_set_inside)
  have inv': "AM_inv ?g'"
    using inv len' a(3) unfolding AM_inv_def by auto
  have cells: "AM_cell ?g' u v = (if u = s \<and> v = d then Some x else AM_cell g u v)"
    if u: "0 \<le> u" "u < am_vertices g" for u v
  proof -
    from AM_inv_row[OF inv u] obtain b where
      b: "arr_get (adjacencyMatrix g) u = Some b" "adjacencyMatrix g ! nat u = Some b"
      by blast
    show ?thesis
    proof (cases "u = s")
      case True
      then have "b = a" using a b by simp
      then show ?thesis using True b a d dlen
        by (auto simp: AM_cell_def arr_get_arr_set_same arr_get_arr_set_other)
    next
      case False
      have "nat u \<noteq> nat s" using False u s by simp
      moreover have "nat u < length (adjacencyMatrix g)" "nat s < length (adjacencyMatrix g)"
        using inv u s by (simp_all add: AM_inv_def)
      moreover have "distinct (adjacencyMatrix g)" using inv by (simp add: AM_inv_def)
      ultimately have "adjacencyMatrix g ! nat u \<noteq> adjacencyMatrix g ! nat s"
        by (simp add: nth_eq_iff_index_eq)
      then have "b \<noteq> a" using a b by auto
      then show ?thesis using False b by (simp add: AM_cell_def)
    qed
  qed
  show ?thesis using run inv' cells by auto
qed

lemma arr_get_append_old: "i < int (length xs) \<Longrightarrow> arr_get (xs @ ys) i = arr_get xs i"
  by (auto simp: arr_get_def nth_append)

lemma arr_get_append_replicate:
  "0 \<le> i \<Longrightarrow> i < int (length xs + m) \<Longrightarrow>
   arr_get (xs @ replicate m x) i = (if i < int (length xs) then arr_get xs i else x)"
  by (auto simp: arr_get_def nth_append)

lemma AM_grow:
  assumes inv: "AM_inv g" and gi: "am_vertices g \<le> gi"
  shows "\<exists>g1. grow_rows g (am_vertices g - 1) gi [0 .. gi] = Inr g1
           \<and> AM_inv (g1\<lparr>am_vertices := gi + 1\<rparr>)
           \<and> (\<forall>u v. 0 \<le> u \<and> u \<le> gi \<and> 0 \<le> v \<and> v \<le> gi \<longrightarrow>
                 AM_cell (g1\<lparr>am_vertices := gi + 1\<rparr>) u v =
                   (if u < am_vertices g \<and> v < am_vertices g then AM_cell g u v
                    else Some PosInfinity))"
proof -
  let ?n = "am_vertices g"
  let ?M = "adjacencyMatrix g"
  let ?li = "?n - 1"
  let ?m = "nat (gi - ?li)"
  let ?ext = "\<lambda>r. r @ replicate ?m (Some PosInfinity)"
  let ?new = "replicate (nat (gi + 1)) (Some PosInfinity)"
  have n0: "0 \<le> ?n" and lenM: "length ?M = nat ?n" and dM: "distinct ?M"
    and rows: "\<And>c. c \<in> set ?M \<Longrightarrow> \<exists>a. c = Some a \<and> a < next_row g \<and> length (row_store g a) = nat ?n"
    using inv unfolding AM_inv_def by auto
  have nthM: "?M ! nat i \<in> set ?M" if "0 \<le> i" "i < ?n" for i
  proof -
    have "nat i < length ?M" using that lenM by simp
    then show ?thesis by (rule nth_mem)
  qed
  have split: "[0 .. gi] = [0 .. ?li] @ [?n .. gi]"
    using upto_split1[of 0 ?n gi] n0 gi by simp
  have img: "(\<lambda>i. ?M ! nat i) ` set [0 .. ?li] = set ?M"
  proof
    show "(\<lambda>i. ?M ! nat i) ` set [0 .. ?li] \<subseteq> set ?M" using nthM by auto
    show "set ?M \<subseteq> (\<lambda>i. ?M ! nat i) ` set [0 .. ?li]"
    proof
      fix c assume "c \<in> set ?M"
      then obtain j where j: "j < length ?M" "?M ! j = c" by (auto simp: in_set_conv_nth)
      then have "int j \<in> set [0 .. ?li]" using lenM by auto
      then show "c \<in> (\<lambda>i. ?M ! nat i) ` set [0 .. ?li]"
        using j(2) by (intro image_eqI[where x="int j"]) simp_all
    qed
  qed
  have old_ex: "\<exists>g'. grow_rows g ?li gi [0 .. ?li] = Inr g'
           \<and> am_vertices g' = am_vertices g
           \<and> adjacencyMatrix g' = adjacencyMatrix g
           \<and> next_row g' = next_row g
           \<and> (\<forall>a. row_store g' a =
                 (if Some a \<in> (\<lambda>i. adjacencyMatrix g ! nat i) ` set [0 .. ?li]
                  then row_store g a @ replicate (nat (gi - ?li)) (Some PosInfinity)
                  else row_store g a))"
  proof (rule grow_rows_old)
    show "\<forall>i \<in> set [0 .. ?li]. 0 \<le> i \<and> i \<le> ?li" by simp
    show "distinct [0 .. ?li]" by simp
    show "int (length ?M) = ?li + 1" using lenM n0 by simp
    show "distinct ?M" by (rule dM)
    show "\<forall>c \<in> set ?M. \<exists>a. c = Some a" using rows by blast
    show "\<forall>i \<in> set [0 .. ?li]. \<forall>a. ?M ! nat i = Some a \<longrightarrow> int (length (row_store g a)) = ?li + 1"
    proof (intro ballI allI impI)
      fix i a assume i: "i \<in> set [0 .. ?li]" and a: "?M ! nat i = Some a"
      then have "?M ! nat i \<in> set ?M" using nthM[of i] by simp
      from rows[OF this] a have "length (row_store g a) = nat ?n" by auto
      then show "int (length (row_store g a)) = ?li + 1" using n0 by simp
    qed
  qed
  then obtain ga where
    p1: "grow_rows g ?li gi [0 .. ?li] = Inr ga"
    and Ma: "adjacencyMatrix ga = ?M" and Na: "next_row ga = next_row g"
    and Fa0: "\<forall>a. row_store ga a =
                 (if Some a \<in> (\<lambda>i. adjacencyMatrix g ! nat i) ` set [0 .. ?li]
                  then row_store g a @ replicate (nat (gi - ?li)) (Some PosInfinity)
                  else row_store g a)"
    by (elim exE conjE)
  have Fa: "row_store ga a = (if Some a \<in> set ?M then ?ext (row_store g a) else row_store g a)" for a
    using Fa0 img by simp
  have new_ex: "\<exists>g'. grow_rows ga ?li gi [?n .. gi] = Inr g'
           \<and> am_vertices g' = am_vertices ga
           \<and> adjacencyMatrix g' =
               adjacencyMatrix ga @ map Some [next_row ga ..< next_row ga + nat (gi + 1 - ?n)]
           \<and> next_row g' = next_row ga + nat (gi + 1 - ?n)
           \<and> (\<forall>a. row_store g' a =
                 (if next_row ga \<le> a \<and> a < next_row ga + nat (gi + 1 - ?n)
                  then replicate (nat (gi + 1)) (Some PosInfinity)
                  else row_store ga a))"
  proof (rule grow_rows_new)
    show "?li < ?n" by simp
    show "int (length (adjacencyMatrix ga)) = ?n" using lenM n0 Ma by simp
  qed
  then obtain g1 where
    p2: "grow_rows ga ?li gi [?n .. gi] = Inr g1"
    and M10: "adjacencyMatrix g1 =
               adjacencyMatrix ga @ map Some [next_row ga ..< next_row ga + nat (gi + 1 - ?n)]"
    and N10: "next_row g1 = next_row ga + nat (gi + 1 - ?n)"
    and F10: "\<forall>a. row_store g1 a =
                 (if next_row ga \<le> a \<and> a < next_row ga + nat (gi + 1 - ?n)
                  then replicate (nat (gi + 1)) (Some PosInfinity)
                  else row_store ga a)"
    by (elim exE conjE)
  have M1: "adjacencyMatrix g1 = ?M @ map Some [next_row g ..< next_row g + nat (gi + 1 - ?n)]"
    using M10 Ma Na by simp
  have N1: "next_row g1 = next_row g + nat (gi + 1 - ?n)" using N10 Na by simp
  have F1: "row_store g1 a =
                 (if next_row g \<le> a \<and> a < next_row g + nat (gi + 1 - ?n) then ?new
                  else if Some a \<in> set ?M then ?ext (row_store g a) else row_store g a)" for a
    using F10 Na Fa[of a] by simp
  have run: "grow_rows g ?li gi [0 .. gi] = Inr g1"
    unfolding split grow_rows_append p1 using p2 by simp
  let ?g' = "g1\<lparr>am_vertices := gi + 1\<rparr>"
  have old_lt: "a < next_row g" if "Some a \<in> set ?M" for a using rows[OF that] by simp
  have old_row: "row_store g1 a = ?ext (row_store g a)" if "Some a \<in> set ?M" for a
    using F1[of a] old_lt[OF that] that by simp
  have lenM1: "length (adjacencyMatrix g1) = nat (gi + 1)" using M1 lenM n0 gi by simp
  have inv': "AM_inv ?g'"
    unfolding AM_inv_def
  proof (intro conjI ballI)
    show "0 \<le> am_vertices ?g'" using n0 gi by simp
    show "length (adjacencyMatrix ?g') = nat (am_vertices ?g')" using lenM1 by simp
    have "Some a \<notin> set ?M" if "next_row g \<le> a" for a
      using old_lt[of a] that by auto
    then show "distinct (adjacencyMatrix ?g')"
      using dM by (auto simp: M1 distinct_map)
    fix c assume "c \<in> set (adjacencyMatrix ?g')"
    then consider "c \<in> set ?M"
      | a where "c = Some a" "next_row g \<le> a" "a < next_row g + nat (gi + 1 - ?n)"
      by (auto simp: M1)
    then show "\<exists>a. c = Some a \<and> a < next_row ?g' \<and> length (row_store ?g' a) = nat (am_vertices ?g')"
    proof cases
      case 1
      from rows[OF 1] obtain a where a: "c = Some a" "a < next_row g" "length (row_store g a) = nat ?n"
        by blast
      have "length (row_store g1 a) = nat (gi + 1)"
        using old_row[of a] 1 a n0 gi by simp
      then show ?thesis using a N1 by simp
    next
      case 2
      then show ?thesis using F1[of a] N1 by simp
    qed
  qed
  have cells: "AM_cell ?g' u v = (if u < ?n \<and> v < ?n then AM_cell g u v else Some PosInfinity)"
    if uv: "0 \<le> u" "u \<le> gi" "0 \<le> v" "v \<le> gi" for u v
  proof (cases "u < ?n")
    case True
    from AM_inv_row[OF inv uv(1) True] obtain a where
      a: "arr_get ?M u = Some a" "?M ! nat u = Some a" "length (row_store g a) = nat ?n" by blast
    have mem: "Some a \<in> set ?M" using a(2) nthM[OF uv(1) True] by simp
    have g1u: "arr_get (adjacencyMatrix g1) u = Some a"
      using a(1) True lenM n0 by (simp add: M1 arr_get_append_old)
    have "arr_get (?ext (row_store g a)) v =
            (if v < int (length (row_store g a)) then arr_get (row_store g a) v else Some PosInfinity)"
      using uv a(3) n0 gi by (intro arr_get_append_replicate) auto
    then show ?thesis using True g1u a old_row[OF mem] n0
      by (simp add: AM_cell_def)
  next
    case False
    define k where "k = nat u - nat ?n"
    have idx: "nat u = length ?M + k" using False lenM n0 uv by (simp add: k_def)
    have klt: "k < nat (gi + 1 - ?n)" using False uv n0 by (auto simp: k_def)
    have "(?M @ map Some [next_row g ..< next_row g + nat (gi + 1 - ?n)]) ! (length ?M + k)
            = Some (next_row g + k)"
      using klt by (simp add: nth_append)
    then have "adjacencyMatrix g1 ! nat u = Some (next_row g + k)"
      using M1 idx by simp
    moreover have "nat u < length (adjacencyMatrix g1)" using lenM1 uv by simp
    ultimately have g1u: "arr_get (adjacencyMatrix g1) u = Some (next_row g + k)"
      using uv by (simp add: arr_get_nth)
    have "row_store g1 (next_row g + k) = ?new" using F1[of "next_row g + k"] klt by simp
    then show ?thesis using False g1u uv by (simp add: AM_cell_def arr_get_replicate)
  qed
  show ?thesis
  proof (intro exI[of _ g1] conjI allI impI)
    show "grow_rows g ?li gi [0 .. gi] = Inr g1" by (rule run)
    show "AM_inv ?g'" by (rule inv')
    fix u v assume "0 \<le> u \<and> u \<le> gi \<and> 0 \<le> v \<and> v \<le> gi"
    then show "AM_cell ?g' u v = (if u < ?n \<and> v < ?n then AM_cell g u v else Some PosInfinity)"
      using cells[of u v] by blast
  qed
qed

lemma AM_setEdge_step:
  assumes inv: "AM_inv g" and s: "0 \<le> s" and d: "0 \<le> d"
  shows "\<exists>g'. AM_setEdge g s d w = Inr g' \<and> AM_inv g'
           \<and> am_vertices g' = max (max (am_vertices g) (s + 1)) (d + 1)
           \<and> (\<forall>u v. 0 \<le> u \<and> u < am_vertices g' \<and> 0 \<le> v \<and> v < am_vertices g' \<longrightarrow>
                 AM_cell g' u v =
                   (if u = s \<and> v = d then Some (given_weight w)
                    else if u < am_vertices g \<and> v < am_vertices g then AM_cell g u v
                    else Some PosInfinity))"
proof (cases "am_vertices g - 1 < s \<or> am_vertices g - 1 < d")
  case False
  then have sd: "s < am_vertices g" "d < am_vertices g" by auto
  from AM_set_cell_inside[OF inv s sd(1) d sd(2), of "given_weight w"] obtain g' where
    sc: "set_cell g s d (given_weight w) = Inr g'" and inv': "AM_inv g'"
    and v': "am_vertices g' = am_vertices g"
    and cells: "\<forall>u v. 0 \<le> u \<and> u < am_vertices g \<longrightarrow>
                 AM_cell g' u v = (if u = s \<and> v = d then Some (given_weight w) else AM_cell g u v)"
    by (elim exE conjE)
  have run: "AM_setEdge g s d w = Inr g'"
    using False s d sc by (simp add: AM_setEdge_def AM_size_def Let_def given_weight_def)
  have vs: "am_vertices g' = max (max (am_vertices g) (s + 1)) (d + 1)"
    using v' sd by simp
  show ?thesis
  proof (intro exI[of _ g'] conjI allI impI)
    show "AM_setEdge g s d w = Inr g'" by (rule run)
    show "AM_inv g'" by (rule inv')
    show "am_vertices g' = max (max (am_vertices g) (s + 1)) (d + 1)" by (rule vs)
    fix u v assume uv: "0 \<le> u \<and> u < am_vertices g' \<and> 0 \<le> v \<and> v < am_vertices g'"
    then show "AM_cell g' u v =
                   (if u = s \<and> v = d then Some (given_weight w)
                    else if u < am_vertices g \<and> v < am_vertices g then AM_cell g u v
                    else Some PosInfinity)"
      using cells v' by simp
  qed
next
  case True
  let ?gi = "max s d"
  have gi: "am_vertices g \<le> ?gi" using True by auto
  from AM_grow[OF inv gi] obtain g1 where
    grow: "grow_rows g (am_vertices g - 1) ?gi [0 .. ?gi] = Inr g1"
    and inv1: "AM_inv (g1\<lparr>am_vertices := ?gi + 1\<rparr>)"
    and cells1: "\<forall>u v. 0 \<le> u \<and> u \<le> ?gi \<and> 0 \<le> v \<and> v \<le> ?gi \<longrightarrow>
                 AM_cell (g1\<lparr>am_vertices := ?gi + 1\<rparr>) u v =
                   (if u < am_vertices g \<and> v < am_vertices g then AM_cell g u v
                    else Some PosInfinity)"
    by (elim exE conjE)
  define g2 where "g2 = g1\<lparr>am_vertices := ?gi + 1\<rparr>"
  have v2: "am_vertices g2 = ?gi + 1" by (simp add: g2_def)
  have sd2: "s < am_vertices g2" "d < am_vertices g2" using v2 by auto
  have inv2: "AM_inv g2" using inv1 by (simp add: g2_def)
  from AM_set_cell_inside[OF inv2 s sd2(1) d sd2(2), of "given_weight w"] obtain g' where
    sc: "set_cell g2 s d (given_weight w) = Inr g'" and inv': "AM_inv g'"
    and v': "am_vertices g' = am_vertices g2"
    and cells: "\<forall>u v. 0 \<le> u \<and> u < am_vertices g2 \<longrightarrow>
                 AM_cell g' u v = (if u = s \<and> v = d then Some (given_weight w) else AM_cell g2 u v)"
    by (elim exE conjE)
  have run: "AM_setEdge g s d w = Inr g'"
    using True s d grow sc
    by (simp add: AM_setEdge_def AM_size_def Let_def given_weight_def g2_def)
  have vs: "am_vertices g' = max (max (am_vertices g) (s + 1)) (d + 1)"
    using v' v2 gi by simp
  show ?thesis
  proof (intro exI[of _ g'] conjI allI impI)
    show "AM_setEdge g s d w = Inr g'" by (rule run)
    show "AM_inv g'" by (rule inv')
    show "am_vertices g' = max (max (am_vertices g) (s + 1)) (d + 1)" by (rule vs)
    fix u v assume uv: "0 \<le> u \<and> u < am_vertices g' \<and> 0 \<le> v \<and> v < am_vertices g'"
    then have r: "0 \<le> u \<and> u \<le> ?gi \<and> 0 \<le> v \<and> v \<le> ?gi" using v' v2 by simp
    have "AM_cell g2 u v =
            (if u < am_vertices g \<and> v < am_vertices g then AM_cell g u v else Some PosInfinity)"
      using cells1 r unfolding g2_def by blast
    moreover have "AM_cell g' u v = (if u = s \<and> v = d then Some (given_weight w) else AM_cell g2 u v)"
      using cells uv v' by simp
    ultimately show "AM_cell g' u v =
                   (if u = s \<and> v = d then Some (given_weight w)
                    else if u < am_vertices g \<and> v < am_vertices g then AM_cell g u v
                    else Some PosInfinity)"
      by simp
  qed
qed

lemma AM_setEdges_char:
  assumes "nonneg_calls cs" and "AM_inv g"
  shows "\<exists>g'. AM_setEdges g cs = Inr g' \<and> AM_inv g'
           \<and> am_vertices g' = max (am_vertices g) (calls_size cs)
           \<and> (\<forall>u v. 0 \<le> u \<and> u < am_vertices g' \<and> 0 \<le> v \<and> v < am_vertices g' \<longrightarrow>
                 AM_cell g' u v =
                   (case last_call cs u v of
                      Some w \<Rightarrow> Some (given_weight w)
                    | None \<Rightarrow> if u < am_vertices g \<and> v < am_vertices g then AM_cell g u v
                              else Some PosInfinity))"
  using assms
proof (induction cs arbitrary: g)
  case Nil
  then show ?case by (simp add: AM_inv_def)
next
  case (Cons c cs)
  obtain s d w where c: "c = (s, d, w)" by (cases c)
  from Cons.prems c have sd: "0 \<le> s" "0 \<le> d" and rest: "nonneg_calls cs"
    by (auto simp: nonneg_calls_def)
  from AM_setEdge_step[OF Cons.prems(2) sd, of w] obtain g1 where
    g1: "AM_setEdge g s d w = Inr g1" and inv1: "AM_inv g1"
    and v1: "am_vertices g1 = max (max (am_vertices g) (s + 1)) (d + 1)"
    and c1: "\<forall>u v. 0 \<le> u \<and> u < am_vertices g1 \<and> 0 \<le> v \<and> v < am_vertices g1 \<longrightarrow>
                 AM_cell g1 u v =
                   (if u = s \<and> v = d then Some (given_weight w)
                    else if u < am_vertices g \<and> v < am_vertices g then AM_cell g u v
                    else Some PosInfinity)"
    by (elim exE conjE)
  from Cons.IH[OF rest inv1] obtain g' where
    g': "AM_setEdges g1 cs = Inr g'" and inv': "AM_inv g'"
    and v': "am_vertices g' = max (am_vertices g1) (calls_size cs)"
    and c': "\<forall>u v. 0 \<le> u \<and> u < am_vertices g' \<and> 0 \<le> v \<and> v < am_vertices g' \<longrightarrow>
                 AM_cell g' u v =
                   (case last_call cs u v of
                      Some w \<Rightarrow> Some (given_weight w)
                    | None \<Rightarrow> if u < am_vertices g1 \<and> v < am_vertices g1 then AM_cell g1 u v
                              else Some PosInfinity)"
    by (elim exE conjE)
  have n0: "0 \<le> am_vertices g" using Cons.prems(2) by (simp add: AM_inv_def)
  show ?case
  proof (intro exI[of _ g'] conjI allI impI)
    show "AM_setEdges g (c # cs) = Inr g'" using c g1 g' by simp
    show "AM_inv g'" by (rule inv')
    show "am_vertices g' = max (am_vertices g) (calls_size (c # cs))"
      using v' v1 c by (simp add: max.assoc)
    fix u v assume uv: "0 \<le> u \<and> u < am_vertices g' \<and> 0 \<le> v \<and> v < am_vertices g'"
    then have eq: "AM_cell g' u v =
                   (case last_call cs u v of
                      Some w \<Rightarrow> Some (given_weight w)
                    | None \<Rightarrow> if u < am_vertices g1 \<and> v < am_vertices g1 then AM_cell g1 u v
                              else Some PosInfinity)"
      using c' by blast
    show "AM_cell g' u v =
                   (case last_call (c # cs) u v of
                      Some w \<Rightarrow> Some (given_weight w)
                    | None \<Rightarrow> if u < am_vertices g \<and> v < am_vertices g then AM_cell g u v
                              else Some PosInfinity)"
    proof (cases "last_call cs u v")
      case (Some x)
      then show ?thesis using eq c by simp
    next
      case None
      show ?thesis
      proof (cases "u < am_vertices g1 \<and> v < am_vertices g1")
        case True
        then have "AM_cell g1 u v =
                   (if u = s \<and> v = d then Some (given_weight w)
                    else if u < am_vertices g \<and> v < am_vertices g then AM_cell g u v
                    else Some PosInfinity)"
          using c1 uv by simp
        then show ?thesis using eq None True c by simp
      next
        case False
        then have "\<not> (u = s \<and> v = d)" "\<not> (u < am_vertices g \<and> v < am_vertices g)"
          using v1 by auto
        then show ?thesis using eq None False c by auto
      qed
    qed
  qed
qed

lemma AM_weight_cell:
  assumes "AM_inv g" and "0 \<le> u" and "u < am_vertices g" and "v < am_vertices g"
  shows "AM_weight g u v = Inr (AM_cell g u v)"
proof -
  from AM_inv_row[OF assms(1,2,3)] obtain a where "arr_get (adjacencyMatrix g) u = Some a" by blast
  then show ?thesis using assms by (simp add: AM_weight_def AM_size_def AM_cell_def Let_def)
qed

lemma row_neighbors_set:
  "set (row_neighbors cells) =
     {v. 0 \<le> v \<and> v < int (length cells) \<and> arr_get cells v \<noteq> None \<and> arr_get cells v \<noteq> Some PosInfinity}"
proof -
  have z: "zip [0 ..< length cells] cells = map (\<lambda>i. (i, cells ! i)) [0 ..< length cells]"
    by (intro nth_equalityI) auto
  have "set (row_neighbors cells) =
          {int i | i. i < length cells \<and> cells ! i \<noteq> None \<and> cells ! i \<noteq> Some PosInfinity}"
    unfolding row_neighbors_def z by (auto simp: image_iff)
  also have "\<dots> = {v. 0 \<le> v \<and> v < int (length cells) \<and> arr_get cells v \<noteq> None
                      \<and> arr_get cells v \<noteq> Some PosInfinity}"
  proof (intro set_eqI iffI)
    fix v assume "v \<in> {int i | i. i < length cells \<and> cells ! i \<noteq> None \<and> cells ! i \<noteq> Some PosInfinity}"
    then show "v \<in> {v. 0 \<le> v \<and> v < int (length cells) \<and> arr_get cells v \<noteq> None
                      \<and> arr_get cells v \<noteq> Some PosInfinity}"
      by (auto simp: arr_get_def)
  next
    fix v assume v: "v \<in> {v. 0 \<le> v \<and> v < int (length cells) \<and> arr_get cells v \<noteq> None
                      \<and> arr_get cells v \<noteq> Some PosInfinity}"
    then have "v = int (nat v)" "nat v < length cells" "cells ! nat v \<noteq> None"
        "cells ! nat v \<noteq> Some PosInfinity"
      by (auto simp: arr_get_def)
    then show "v \<in> {int i | i. i < length cells \<and> cells ! i \<noteq> None \<and> cells ! i \<noteq> Some PosInfinity}"
      by blast
  qed
  finally show ?thesis .
qed

lemma AM_neighbors_cell:
  assumes "AM_inv g" and "0 \<le> u" and "u < am_vertices g"
  shows "\<exists>ns. AM_neighbors g u = Inr ns
           \<and> set ns = {v. 0 \<le> v \<and> v < am_vertices g \<and> AM_cell g u v \<noteq> None
                         \<and> AM_cell g u v \<noteq> Some PosInfinity}"
proof -
  from AM_inv_row[OF assms] obtain a where
    a: "arr_get (adjacencyMatrix g) u = Some a" "length (row_store g a) = nat (am_vertices g)"
    by blast
  have "AM_neighbors g u = Inr (row_neighbors (row_store g a))"
    using a assms by (simp add: AM_neighbors_def AM_size_def Let_def)
  moreover have "set (row_neighbors (row_store g a)) =
       {v. 0 \<le> v \<and> v < am_vertices g \<and> AM_cell g u v \<noteq> None \<and> AM_cell g u v \<noteq> Some PosInfinity}"
    using a assms by (auto simp: row_neighbors_set AM_cell_def)
  ultimately show ?thesis by blast
qed

lemma last_call_mem: "last_call cs u v = Some w \<Longrightarrow> (u, v, w) \<in> set cs"
  by (induction cs) (auto split: option.splits if_splits)

lemma calls_size_bound: "(u, v, w) \<in> set cs \<Longrightarrow> u < calls_size cs \<and> v < calls_size cs"
  by (induction cs) auto

lemma calls_size_nonneg: "0 \<le> calls_size cs"
  by (induction cs) auto

lemma was_set_last_call: "was_set cs u v \<longleftrightarrow> last_call cs u v \<noteq> None"
  by (auto simp: was_set_def list_ex_iff last_call_None_iff)

lemma AM_inv_empty:
  "AM_inv \<lparr>am_vertices = 0, adjacencyMatrix = [], row_store = (\<lambda>_. []), next_row = 0\<rparr>"
  by (simp add: AM_inv_def)

lemma runs_char:
  assumes "nonneg_calls cs"
  shows "\<exists>ga gm ge. AL_run cs = Inr ga \<and> AM_run cs = Inr gm \<and> EL_run cs = Inr ge
     \<and> al_vertices ga = calls_size cs \<and> am_vertices gm = calls_size cs
     \<and> el_vertices ge = calls_size cs \<and> AM_inv gm
     \<and> (\<forall>u v. AL_lookup ga u v = map_option given_weight (last_call cs u v))
     \<and> (\<forall>u v. 0 \<le> u \<and> u < calls_size cs \<and> 0 \<le> v \<and> v < calls_size cs \<longrightarrow>
            AM_cell gm u v =
              Some (case last_call cs u v of Some w \<Rightarrow> given_weight w | None \<Rightarrow> PosInfinity))
     \<and> (\<forall>u v. EL_lookup ge u v =
            (case last_call cs u v of
               Some w \<Rightarrow> Some (stored_weight w)
             | None \<Rightarrow> if u = v \<and> u \<in> endpoints cs then Some (Fin 0) else None))"
proof -
  let ?a0 = "new_AdjacencyList None"
  let ?m0 = "\<lparr>am_vertices = 0, adjacencyMatrix = [], row_store = (\<lambda>_. []), next_row = 0\<rparr>"
  let ?e0 = "new_EdgeList None"
  have a0: "0 \<le> al_vertices ?a0" by (simp add: new_AdjacencyList_def)
  have e0: "0 \<le> el_vertices ?e0" by (simp add: new_EdgeList_def)
  from AL_setEdges_char[OF assms a0] obtain ga where
    ga: "AL_setEdges ?a0 cs = Inr ga" and va: "al_vertices ga = max (al_vertices ?a0) (calls_size cs)"
    and la: "\<forall>u v. AL_lookup ga u v =
                 (case last_call cs u v of Some w \<Rightarrow> Some (given_weight w) | None \<Rightarrow> AL_lookup ?a0 u v)"
    by (elim exE conjE)
  from AM_setEdges_char[OF assms AM_inv_empty] obtain gm where
    gm: "AM_setEdges ?m0 cs = Inr gm" and im: "AM_inv gm"
    and vm: "am_vertices gm = max (am_vertices ?m0) (calls_size cs)"
    and cm: "\<forall>u v. 0 \<le> u \<and> u < am_vertices gm \<and> 0 \<le> v \<and> v < am_vertices gm \<longrightarrow>
                 AM_cell gm u v =
                   (case last_call cs u v of
                      Some w \<Rightarrow> Some (given_weight w)
                    | None \<Rightarrow> if u < am_vertices ?m0 \<and> v < am_vertices ?m0 then AM_cell ?m0 u v
                              else Some PosInfinity)"
    by (elim exE conjE)
  from EL_setEdges_char[OF assms e0] obtain ge where
    ge: "EL_setEdges ?e0 cs = Inr ge" and ve: "el_vertices ge = max (el_vertices ?e0) (calls_size cs)"
    and le: "\<forall>u v. EL_lookup ge u v =
                 (case last_call cs u v of
                    Some w \<Rightarrow> Some (stored_weight w)
                  | None \<Rightarrow> if u = v \<and> u \<in> endpoints cs \<and> EL_lookup ?e0 u v = None
                            then Some (Fin 0) else EL_lookup ?e0 u v)"
    by (elim exE conjE)
  have sz: "0 \<le> calls_size cs" by (rule calls_size_nonneg)
  show ?thesis
  proof (intro exI[of _ ga] exI[of _ gm] exI[of _ ge] conjI allI impI)
    show "AL_run cs = Inr ga" using ga by (simp add: AL_run_def)
    show "AM_run cs = Inr gm" using gm by (simp add: AM_run_def new_AdjacencyMatrix_def)
    show "EL_run cs = Inr ge" using ge by (simp add: EL_run_def)
    show "al_vertices ga = calls_size cs" using va sz by (simp add: new_AdjacencyList_def)
    show "am_vertices gm = calls_size cs" using vm sz by simp
    show "el_vertices ge = calls_size cs" using ve sz by (simp add: new_EdgeList_def)
    show "AM_inv gm" by (rule im)
    show "AL_lookup ga u v = map_option given_weight (last_call cs u v)" for u v
    proof -
      have "AL_lookup ?a0 u v = None" by (simp add: AL_lookup_def new_AdjacencyList_def)
      then show ?thesis using la[rule_format, of u v] by (cases "last_call cs u v") simp_all
    qed
    show "EL_lookup ge u v =
            (case last_call cs u v of
               Some w \<Rightarrow> Some (stored_weight w)
             | None \<Rightarrow> if u = v \<and> u \<in> endpoints cs then Some (Fin 0) else None)" for u v
    proof -
      have "EL_lookup ?e0 u v = None" by (simp add: EL_lookup_def new_EdgeList_def)
      then show ?thesis using le[rule_format, of u v] by (cases "last_call cs u v") auto
    qed
    fix u v assume uv: "0 \<le> u \<and> u < calls_size cs \<and> 0 \<le> v \<and> v < calls_size cs"
    then have "AM_cell gm u v =
                   (case last_call cs u v of
                      Some w \<Rightarrow> Some (given_weight w)
                    | None \<Rightarrow> if u < am_vertices ?m0 \<and> v < am_vertices ?m0 then AM_cell ?m0 u v
                              else Some PosInfinity)"
      using cm[rule_format, of u v] vm sz by simp
    moreover have "\<not> u < 0" using uv by simp
    ultimately show "AM_cell gm u v =
              Some (case last_call cs u v of Some w \<Rightarrow> given_weight w | None \<Rightarrow> PosInfinity)"
      by (cases "last_call cs u v") simp_all
  qed
qed

lemma last_call_explicit:
  "explicit_weights cs \<Longrightarrow> last_call cs u v = Some w \<Longrightarrow> stored_weight w = given_weight w"
  by (drule last_call_mem)
     (auto simp: explicit_weights_def list_all_iff stored_weight_def given_weight_def)

lemma last_call_finite:
  "no_infinite_weight cs \<Longrightarrow> last_call cs u v = Some w \<Longrightarrow> given_weight w \<noteq> PosInfinity"
  by (drule last_call_mem)
     (auto simp: no_infinite_weight_def list_all_iff given_weight_def split: option.splits)

lemma last_call_range:
  assumes "nonneg_calls cs" and "last_call cs u v = Some w"
  shows "0 \<le> u \<and> u < calls_size cs \<and> 0 \<le> v \<and> v < calls_size cs"
proof -
  have m: "(u, v, w) \<in> set cs" using assms(2) by (rule last_call_mem)
  then have "0 \<le> u \<and> 0 \<le> v" using assms(1) by (auto simp: nonneg_calls_def list_all_iff)
  then show ?thesis using calls_size_bound[OF m] by simp
qed

text \<open>
  Where the backends do agree. From empty storages and the same calls, none with a negative
  index: the three backends report the same \<^verbatim>\<open>size()\<close>. For \<open>u, v\<close> below it, the
  adjacency list and the adjacency matrix return the same \<^verbatim>\<open>weight(u, v)\<close>, and the same
  \<^verbatim>\<open>neighbors(u)\<close> as a set provided no call passed \<^verbatim>\<open>Infinity\<close> as a weight. The edge
  list, whose \<^verbatim>\<open>setEdge\<close> also registers both end points through \<^verbatim>\<open>setVertex\<close> (a
  self-loop of weight 0 as a placeholder), agrees with them off the diagonal only: for
  \<open>u \<noteq> v\<close> it returns the same \<^verbatim>\<open>weight(u, v)\<close> when every call gave its weight, and its
  \<^verbatim>\<open>neighbors(u)\<close> is the same set up to \<open>u\<close> itself.
\<close>

lemma backends_agree_off_diagonal:
  assumes "nonneg_calls cs"
  shows "\<exists>ga gm ge. AL_run cs = Inr ga \<and> AM_run cs = Inr gm \<and> EL_run cs = Inr ge
     \<and> AM_size gm = AL_size ga \<and> EL_size ge = AL_size ga
     \<and> (\<forall>u v. 0 \<le> u \<and> u < AL_size ga \<and> 0 \<le> v \<and> v < AL_size ga \<longrightarrow>
           AM_weight gm u v = map_sum id Some (AL_weight ga u v)
         \<and> (no_infinite_weight cs \<longrightarrow>
               map_sum id set (AM_neighbors gm u) = map_sum id set (AL_neighbors ga u))
         \<and> (explicit_weights cs \<and> u \<noteq> v \<longrightarrow> EL_weight ge u v = AL_weight ga u v)
         \<and> map_sum id (\<lambda>ns. set ns - {u}) (EL_neighbors ge u) =
             map_sum id (\<lambda>ns. set ns - {u}) (AL_neighbors ga u))"
proof -
  from runs_char[OF assms] obtain ga gm ge where
    ra: "AL_run cs = Inr ga" and rm: "AM_run cs = Inr gm" and re: "EL_run cs = Inr ge"
    and va: "al_vertices ga = calls_size cs" and vm: "am_vertices gm = calls_size cs"
    and ve: "el_vertices ge = calls_size cs" and im: "AM_inv gm"
    and la: "\<forall>u v. AL_lookup ga u v = map_option given_weight (last_call cs u v)"
    and cm: "\<forall>u v. 0 \<le> u \<and> u < calls_size cs \<and> 0 \<le> v \<and> v < calls_size cs \<longrightarrow>
            AM_cell gm u v =
              Some (case last_call cs u v of Some w \<Rightarrow> given_weight w | None \<Rightarrow> PosInfinity)"
    and le: "\<forall>u v. EL_lookup ge u v =
            (case last_call cs u v of
               Some w \<Rightarrow> Some (stored_weight w)
             | None \<Rightarrow> if u = v \<and> u \<in> endpoints cs then Some (Fin 0) else None)"
    by (elim exE conjE)
  show ?thesis
  proof (intro exI[of _ ga] exI[of _ gm] exI[of _ ge] conjI allI impI)
    show "AL_run cs = Inr ga" by (rule ra)
    show "AM_run cs = Inr gm" by (rule rm)
    show "EL_run cs = Inr ge" by (rule re)
    show "AM_size gm = AL_size ga" using va vm by (simp add: AM_size_def AL_size_def)
    show "EL_size ge = AL_size ga" using va ve by (simp add: EL_size_def AL_size_def)
  next
    fix u v assume "0 \<le> u \<and> u < AL_size ga \<and> 0 \<le> v \<and> v < AL_size ga"
    then have uv: "0 \<le> u" "u < calls_size cs" "0 \<le> v" "v < calls_size cs"
      using va by (simp_all add: AL_size_def)
    have "AM_weight gm u v = Inr (AM_cell gm u v)"
      using AM_weight_cell[OF im] uv vm by simp
    then show "AM_weight gm u v = map_sum id Some (AL_weight ga u v)"
      using cm[rule_format, of u v] la[rule_format, of u v] uv va
      by (cases "last_call cs u v") (simp_all add: AL_weight_lookup)
  next
    fix u v assume "0 \<le> u \<and> u < AL_size ga \<and> 0 \<le> v \<and> v < AL_size ga"
    then have uv: "0 \<le> u" "u < calls_size cs" "0 \<le> v" "v < calls_size cs"
      using va by (simp_all add: AL_size_def)
    assume fin: "no_infinite_weight cs"
    from AM_neighbors_cell[OF im uv(1)] uv(2) vm obtain ns where
      ns: "AM_neighbors gm u = Inr ns"
      and sns: "set ns = {v. 0 \<le> v \<and> v < am_vertices gm \<and> AM_cell gm u v \<noteq> None
                         \<and> AM_cell gm u v \<noteq> Some PosInfinity}"
      by auto
    have "set ns = {v. AL_lookup ga u v \<noteq> None}"
    proof (intro set_eqI iffI)
      fix x assume "x \<in> set ns"
      then have x: "0 \<le> x" "x < calls_size cs" "AM_cell gm u x \<noteq> Some PosInfinity"
        using sns vm by auto
      then have "last_call cs u x \<noteq> None"
        using cm[rule_format, of u x] uv by (cases "last_call cs u x") auto
      then show "x \<in> {v. AL_lookup ga u v \<noteq> None}" using la by auto
    next
      fix x assume "x \<in> {v. AL_lookup ga u v \<noteq> None}"
      then obtain w where w: "last_call cs u x = Some w" using la by auto
      from last_call_range[OF assms w] have r: "0 \<le> x" "x < calls_size cs" by auto
      have "AM_cell gm u x = Some (given_weight w)" using cm[rule_format, of u x] uv r w by simp
      then show "x \<in> set ns" using sns r vm last_call_finite[OF fin w] by simp
    qed
    then show "map_sum id set (AM_neighbors gm u) = map_sum id set (AL_neighbors ga u)"
      using ns uv va by (simp add: AL_neighbors_lookup AL_neighbors_set)
  next
    fix u v assume "0 \<le> u \<and> u < AL_size ga \<and> 0 \<le> v \<and> v < AL_size ga"
    then have uv: "0 \<le> u" "u < calls_size cs" "0 \<le> v" "v < calls_size cs"
      using va by (simp_all add: AL_size_def)
    assume "explicit_weights cs \<and> u \<noteq> v"
    then have ex: "explicit_weights cs" and ne: "u \<noteq> v" by auto
    have "EL_lookup ge u v = AL_lookup ga u v"
    proof (cases "last_call cs u v")
      case None
      then show ?thesis using le[rule_format, of u v] la[rule_format, of u v] ne by simp
    next
      case (Some w)
      then show ?thesis
        using le[rule_format, of u v] la[rule_format, of u v] last_call_explicit[OF ex Some] by simp
    qed
    then show "EL_weight ge u v = AL_weight ga u v"
      using va ve by (simp add: EL_weight_lookup AL_weight_lookup)
  next
    fix u v assume "0 \<le> u \<and> u < AL_size ga \<and> 0 \<le> v \<and> v < AL_size ga"
    then have uv: "0 \<le> u" "u < calls_size cs"
      using va by (simp_all add: AL_size_def)
    have e: "EL_neighbors ge u =
        Inr (concat (map (\<lambda>e. if edge_source e = u then [edge_destination e] else []) (edges ge)))"
      using uv ve by (simp add: EL_neighbors_def EL_size_def Let_def)
    have "{x. find (is_edge u x) (edges ge) \<noteq> None} - {u} = {x. AL_lookup ga u x \<noteq> None} - {u}"
    proof -
      have "(find (is_edge u x) (edges ge) \<noteq> None) = (EL_lookup ge u x \<noteq> None)" for x
        by (simp add: EL_lookup_def)
      moreover have "x \<noteq> u \<Longrightarrow> (EL_lookup ge u x \<noteq> None) = (AL_lookup ga u x \<noteq> None)" for x
        using le[rule_format, of u x] la[rule_format, of u x]
        by (cases "last_call cs u x") auto
      ultimately show ?thesis by auto
    qed
    then have s1: "set (concat (map (\<lambda>e. if edge_source e = u then [edge_destination e] else [])
                        (edges ge))) - {u}
               = set (case map_of (adjacencyList ga) u of None \<Rightarrow> [] | Some inner \<Rightarrow> map fst inner) - {u}"
      unfolding EL_neighbors_set AL_neighbors_set .
    have a1: "AL_neighbors ga u =
        Inr (case map_of (adjacencyList ga) u of None \<Rightarrow> [] | Some inner \<Rightarrow> map fst inner)"
      using uv va by (simp add: AL_neighbors_lookup)
    show "map_sum id (\<lambda>ns. set ns - {u}) (EL_neighbors ge u) =
             map_sum id (\<lambda>ns. set ns - {u}) (AL_neighbors ga u)"
      unfolding e a1 map_sum.simps s1 ..
  qed
qed

text \<open>The agreement at the calls \<^verbatim>\<open>setEdge(0, 1, 5); setEdge(1, 2, 7)\<close>.\<close>

lemma backends_agree_off_diagonal_example:
  "nonneg_calls [(0, 1, Some (Fin 5)), (1, 2, Some (Fin 7))]
   \<and> no_infinite_weight [(0, 1, Some (Fin 5)), (1, 2, Some (Fin 7))]
   \<and> explicit_weights [(0, 1, Some (Fin 5)), (1, 2, Some (Fin 7))]
   \<and> (\<exists>ga gm ge. AL_run [(0, 1, Some (Fin 5)), (1, 2, Some (Fin 7))] = Inr ga
        \<and> AM_run [(0, 1, Some (Fin 5)), (1, 2, Some (Fin 7))] = Inr gm
        \<and> EL_run [(0, 1, Some (Fin 5)), (1, 2, Some (Fin 7))] = Inr ge
        \<and> AL_size ga = 3 \<and> AM_size gm = 3 \<and> EL_size ge = 3
        \<and> AM_weight gm 0 1 = map_sum id Some (AL_weight ga 0 1)
        \<and> map_sum id set (AM_neighbors gm 0) = map_sum id set (AL_neighbors ga 0)
        \<and> EL_weight ge 0 1 = AL_weight ga 0 1
        \<and> map_sum id (\<lambda>ns. set ns - {0}) (EL_neighbors ge 0) =
            map_sum id (\<lambda>ns. set ns - {0}) (AL_neighbors ga 0))"
proof -
  let ?cs = "[(0, 1, Some (Fin 5)), (1, 2, Some (Fin 7))] :: setEdge_call list"
  have n: "nonneg_calls ?cs" by (simp add: nonneg_calls_def)
  have f: "no_infinite_weight ?cs" by (simp add: no_infinite_weight_def)
  have x: "explicit_weights ?cs" by (simp add: explicit_weights_def)
  from backends_agree_off_diagonal[OF n] obtain ga gm ge where
    r: "AL_run ?cs = Inr ga" "AM_run ?cs = Inr gm" "EL_run ?cs = Inr ge"
    and sz: "AM_size gm = AL_size ga" "EL_size ge = AL_size ga"
    and q: "\<forall>u v. 0 \<le> u \<and> u < AL_size ga \<and> 0 \<le> v \<and> v < AL_size ga \<longrightarrow>
           AM_weight gm u v = map_sum id Some (AL_weight ga u v)
         \<and> (no_infinite_weight ?cs \<longrightarrow>
               map_sum id set (AM_neighbors gm u) = map_sum id set (AL_neighbors ga u))
         \<and> (explicit_weights ?cs \<and> u \<noteq> v \<longrightarrow> EL_weight ge u v = AL_weight ga u v)
         \<and> map_sum id (\<lambda>ns. set ns - {u}) (EL_neighbors ge u) =
             map_sum id (\<lambda>ns. set ns - {u}) (AL_neighbors ga u)"
    by (elim exE conjE)
  have "AL_run ?cs = Inr \<lparr>al_vertices = 3, adjacencyList = [(0, [(1, Fin 5)]), (1, [(2, Fin 7)])]\<rparr>"
    by code_simp
  then have s3: "AL_size ga = 3" using r(1) by (auto simp: AL_size_def)
  from q[rule_format, of 0 1] s3 f x
  have t: "AM_weight gm 0 1 = map_sum id Some (AL_weight ga 0 1)"
    "map_sum id set (AM_neighbors gm 0) = map_sum id set (AL_neighbors ga 0)"
    "EL_weight ge 0 1 = AL_weight ga 0 1"
    "map_sum id (\<lambda>ns. set ns - {0}) (EL_neighbors ge 0) =
            map_sum id (\<lambda>ns. set ns - {0}) (AL_neighbors ga 0)"
    by simp_all
  show ?thesis
    by (intro conjI exI[of _ ga] exI[of _ gm] exI[of _ ge]) (simp_all add: n f x r sz s3 t)
qed

text \<open>
  C1 (the defect). \<^verbatim>\<open>EdgeList_GraphStorage.setEdge\<close> registers both end points through
  \<^verbatim>\<open>setVertex\<close>, which pushes a self-loop of weight 0 for a vertex that has none. After
  \<^verbatim>\<open>setEdge(0, 1, 5)\<close> alone, from empty storages, \<^verbatim>\<open>size()\<close> is 2 on all three backends;
  \<^verbatim>\<open>weight(0, 0)\<close> is \<^verbatim>\<open>Infinity\<close> and \<^verbatim>\<open>neighbors(0)\<close> is \<open>[1]\<close> on the adjacency list and on
  the adjacency matrix, while the edge list returns 0 and \<open>[0, 1]\<close>.
\<close>

theorem C1_edge_list_self_loop_differs:
  "(case AL_run [(0, 1, Some (Fin 5))] of
      Inl e \<Rightarrow> None
    | Inr g \<Rightarrow> Some (AL_size g, AL_weight g 0 0, AL_neighbors g 0))
     = Some (2, Inr PosInfinity, Inr [1])
   \<and> (case AM_run [(0, 1, Some (Fin 5))] of
        Inl e \<Rightarrow> None
      | Inr g \<Rightarrow> Some (AM_size g, AM_weight g 0 0, AM_neighbors g 0))
     = Some (2, Inr (Some PosInfinity), Inr [1])
   \<and> (case EL_run [(0, 1, Some (Fin 5))] of
        Inl e \<Rightarrow> None
      | Inr g \<Rightarrow> Some (EL_size g, EL_weight g 0 0, EL_neighbors g 0))
     = Some (2, Inr (Fin 0), Inr [0, 1])"
  by code_simp

text \<open>
  When a weight is \<^verbatim>\<open>Infinity\<close>. From empty storages and the same calls, none with a negative
  index and none passing \<^verbatim>\<open>Infinity\<close> as a weight, for \<open>u, v\<close> below \<^verbatim>\<open>size()\<close>: on the
  adjacency list and on the adjacency matrix \<^verbatim>\<open>weight(u, v)\<close> is \<^verbatim>\<open>Infinity\<close> exactly when
  no call was \<^verbatim>\<open>setEdge(u, v, _)\<close>; on the edge list exactly when no call was
  \<^verbatim>\<open>setEdge(u, v, _)\<close> and \<open>(u, v)\<close> is not the placeholder self-loop of a vertex that some
  call mentions.
\<close>

lemma infinity_iff_never_set:
  assumes "nonneg_calls cs" and "no_infinite_weight cs"
  shows "\<exists>ga gm ge. AL_run cs = Inr ga \<and> AM_run cs = Inr gm \<and> EL_run cs = Inr ge
     \<and> AM_size gm = AL_size ga \<and> EL_size ge = AL_size ga
     \<and> (\<forall>u v. 0 \<le> u \<and> u < AL_size ga \<and> 0 \<le> v \<and> v < AL_size ga \<longrightarrow>
           (AL_weight ga u v = Inr PosInfinity \<longleftrightarrow> \<not> was_set cs u v)
         \<and> (AM_weight gm u v = Inr (Some PosInfinity) \<longleftrightarrow> \<not> was_set cs u v)
         \<and> (EL_weight ge u v = Inr PosInfinity \<longleftrightarrow>
               \<not> was_set cs u v \<and> \<not> (u = v \<and> u \<in> endpoints cs)))"
proof -
  from runs_char[OF assms(1)] obtain ga gm ge where
    ra: "AL_run cs = Inr ga" and rm: "AM_run cs = Inr gm" and re: "EL_run cs = Inr ge"
    and va: "al_vertices ga = calls_size cs" and vm: "am_vertices gm = calls_size cs"
    and ve: "el_vertices ge = calls_size cs" and im: "AM_inv gm"
    and la: "\<forall>u v. AL_lookup ga u v = map_option given_weight (last_call cs u v)"
    and cm: "\<forall>u v. 0 \<le> u \<and> u < calls_size cs \<and> 0 \<le> v \<and> v < calls_size cs \<longrightarrow>
            AM_cell gm u v =
              Some (case last_call cs u v of Some w \<Rightarrow> given_weight w | None \<Rightarrow> PosInfinity)"
    and le: "\<forall>u v. EL_lookup ge u v =
            (case last_call cs u v of
               Some w \<Rightarrow> Some (stored_weight w)
             | None \<Rightarrow> if u = v \<and> u \<in> endpoints cs then Some (Fin 0) else None)"
    by (elim exE conjE)
  have fin: "given_weight w \<noteq> PosInfinity" if "last_call cs u v = Some w" for u v w
    using last_call_finite[OF assms(2) that] .
  have fin': "stored_weight w \<noteq> PosInfinity" if "last_call cs u v = Some w" for u v w
    using last_call_mem[OF that] assms(2)
    by (auto simp: no_infinite_weight_def list_all_iff stored_weight_def DEFAULT_WEIGHT_def
          split: option.splits)
  show ?thesis
  proof (intro exI[of _ ga] exI[of _ gm] exI[of _ ge] conjI allI impI)
    show "AL_run cs = Inr ga" by (rule ra)
    show "AM_run cs = Inr gm" by (rule rm)
    show "EL_run cs = Inr ge" by (rule re)
    show "AM_size gm = AL_size ga" using va vm by (simp add: AM_size_def AL_size_def)
    show "EL_size ge = AL_size ga" using va ve by (simp add: EL_size_def AL_size_def)
  next
    fix u v assume "0 \<le> u \<and> u < AL_size ga \<and> 0 \<le> v \<and> v < AL_size ga"
    then have uv: "0 \<le> u" "u < calls_size cs" "0 \<le> v" "v < calls_size cs"
      using va by (simp_all add: AL_size_def)
    show "AL_weight ga u v = Inr PosInfinity \<longleftrightarrow> \<not> was_set cs u v"
      using la[rule_format, of u v] uv va fin[of u v]
      by (cases "last_call cs u v") (simp_all add: AL_weight_lookup was_set_last_call)
  next
    fix u v assume "0 \<le> u \<and> u < AL_size ga \<and> 0 \<le> v \<and> v < AL_size ga"
    then have uv: "0 \<le> u" "u < calls_size cs" "0 \<le> v" "v < calls_size cs"
      using va by (simp_all add: AL_size_def)
    have "AM_weight gm u v = Inr (AM_cell gm u v)"
      using AM_weight_cell[OF im] uv vm by simp
    then show "AM_weight gm u v = Inr (Some PosInfinity) \<longleftrightarrow> \<not> was_set cs u v"
      using cm[rule_format, of u v] uv fin[of u v]
      by (cases "last_call cs u v") (simp_all add: was_set_last_call)
  next
    fix u v assume "0 \<le> u \<and> u < AL_size ga \<and> 0 \<le> v \<and> v < AL_size ga"
    then have uv: "0 \<le> u" "u < calls_size cs" "0 \<le> v" "v < calls_size cs"
      using va by (simp_all add: AL_size_def)
    show "EL_weight ge u v = Inr PosInfinity \<longleftrightarrow>
               \<not> was_set cs u v \<and> \<not> (u = v \<and> u \<in> endpoints cs)"
      using le[rule_format, of u v] uv ve fin'[of u v]
      by (cases "last_call cs u v") (auto simp: EL_weight_lookup was_set_last_call)
  qed
qed

text \<open>The same at the single call \<^verbatim>\<open>setEdge(0, 2, 5)\<close>.\<close>

lemma infinity_iff_never_set_example:
  "nonneg_calls [(0, 2, Some (Fin 5))] \<and> no_infinite_weight [(0, 2, Some (Fin 5))]
   \<and> (\<exists>ga gm ge. AL_run [(0, 2, Some (Fin 5))] = Inr ga
        \<and> AM_run [(0, 2, Some (Fin 5))] = Inr gm
        \<and> EL_run [(0, 2, Some (Fin 5))] = Inr ge
        \<and> AL_size ga = 3 \<and> AM_size gm = 3 \<and> EL_size ge = 3
        \<and> AL_weight ga 0 2 \<noteq> Inr PosInfinity \<and> AL_weight ga 1 1 = Inr PosInfinity
        \<and> AM_weight gm 0 2 \<noteq> Inr (Some PosInfinity) \<and> AM_weight gm 1 1 = Inr (Some PosInfinity)
        \<and> EL_weight ge 0 2 \<noteq> Inr PosInfinity \<and> EL_weight ge 1 1 = Inr PosInfinity
        \<and> EL_weight ge 0 0 \<noteq> Inr PosInfinity)"
proof -
  let ?cs = "[(0, 2, Some (Fin 5))] :: setEdge_call list"
  have n: "nonneg_calls ?cs" by (simp add: nonneg_calls_def)
  have f: "no_infinite_weight ?cs" by (simp add: no_infinite_weight_def)
  from infinity_iff_never_set[OF n f] obtain ga gm ge where
    r: "AL_run ?cs = Inr ga" "AM_run ?cs = Inr gm" "EL_run ?cs = Inr ge"
    and sz: "AM_size gm = AL_size ga" "EL_size ge = AL_size ga"
    and q: "\<forall>u v. 0 \<le> u \<and> u < AL_size ga \<and> 0 \<le> v \<and> v < AL_size ga \<longrightarrow>
           (AL_weight ga u v = Inr PosInfinity \<longleftrightarrow> \<not> was_set ?cs u v)
         \<and> (AM_weight gm u v = Inr (Some PosInfinity) \<longleftrightarrow> \<not> was_set ?cs u v)
         \<and> (EL_weight ge u v = Inr PosInfinity \<longleftrightarrow>
               \<not> was_set ?cs u v \<and> \<not> (u = v \<and> u \<in> endpoints ?cs))"
    by (elim exE conjE)
  have "AL_run ?cs = Inr \<lparr>al_vertices = 3, adjacencyList = [(0, [(2, Fin 5)])]\<rparr>"
    by code_simp
  then have s3: "AL_size ga = 3" using r(1) by (auto simp: AL_size_def)
  have w: "was_set ?cs 0 2" "\<not> was_set ?cs 1 1" "\<not> was_set ?cs 0 0"
    by (simp_all add: was_set_def)
  have e: "0 \<in> endpoints ?cs" "1 \<notin> endpoints ?cs" by (simp_all add: endpoints_def)
  from q[rule_format, of 0 2] q[rule_format, of 1 1] q[rule_format, of 0 0] s3 w e
  have t: "AL_weight ga 0 2 \<noteq> Inr PosInfinity" "AL_weight ga 1 1 = Inr PosInfinity"
    "AM_weight gm 0 2 \<noteq> Inr (Some PosInfinity)" "AM_weight gm 1 1 = Inr (Some PosInfinity)"
    "EL_weight ge 0 2 \<noteq> Inr PosInfinity" "EL_weight ge 1 1 = Inr PosInfinity"
    "EL_weight ge 0 0 \<noteq> Inr PosInfinity"
    by simp_all
  show ?thesis
    by (intro conjI exI[of _ ga] exI[of _ gm] exI[of _ ge]) (simp_all add: n f r sz s3 t)
qed

text \<open>
  C5 (the defect). After \<^verbatim>\<open>setEdge(0, 1, 5)\<close> alone, from empty storages, no call has set
  the edge \<open>0 \<rightarrow> 0\<close> and both indices are below \<^verbatim>\<open>size() = 2\<close>: \<^verbatim>\<open>weight(0, 0)\<close> is
  \<^verbatim>\<open>Infinity\<close> on the adjacency list and on the adjacency matrix, and 0 on the edge list
  (the placeholder self-loop that \<^verbatim>\<open>setVertex\<close> pushed).
\<close>

theorem C5_edge_list_placeholder_is_finite:
  "\<not> was_set [(0, 1, Some (Fin 5))] 0 0
   \<and> (case AL_run [(0, 1, Some (Fin 5))] of
        Inl e \<Rightarrow> None
      | Inr g \<Rightarrow> Some (AL_size g, AL_weight g 0 0)) = Some (2, Inr PosInfinity)
   \<and> (case AM_run [(0, 1, Some (Fin 5))] of
        Inl e \<Rightarrow> None
      | Inr g \<Rightarrow> Some (AM_size g, AM_weight g 0 0)) = Some (2, Inr (Some PosInfinity))
   \<and> (case EL_run [(0, 1, Some (Fin 5))] of
        Inl e \<Rightarrow> None
      | Inr g \<Rightarrow> Some (EL_size g, EL_weight g 0 0)) = Some (2, Inr (Fin 0))"
  by code_simp

text \<open>
  C6 (the defect). \<^verbatim>\<open>EdgeList_GraphStorage.setEdge(0, 1)\<close> with the weight left out stores
  \<^verbatim>\<open>Edge.DEFAULT_WEIGHT = 1\<close>, not 0: \<^verbatim>\<open>weight(0, 1)\<close> returns 1. The adjacency list and the
  adjacency matrix store 0 on the same call.
\<close>

theorem C6_edge_list_stores_one:
  "(case EL_run [(0, 1, None)] of Inl e \<Rightarrow> Inl e | Inr g \<Rightarrow> EL_weight g 0 1) = Inr (Fin 1)
   \<and> (case AL_run [(0, 1, None)] of Inl e \<Rightarrow> Inl e | Inr g \<Rightarrow> AL_weight g 0 1) = Inr (Fin 0)
   \<and> (case AM_run [(0, 1, None)] of Inl e \<Rightarrow> Inl e | Inr g \<Rightarrow> AM_weight g 0 1) = Inr (Some (Fin 0))"
  by code_simp

text \<open>
  C9. An adjacency matrix constructed with a vertex count \<open>n \<ge> 2\<close> holds \<open>n\<close> references
  to one row. After \<^verbatim>\<open>setEdge(u, v, w)\<close> with \<open>u, v < n\<close>, \<^verbatim>\<open>weight(x, v)\<close> returns \<open>w\<close> for
  every \<open>x < n\<close>.
\<close>

theorem C9_matrix_rows_alias:
  assumes "2 \<le> n" and "0 \<le> u" and "u < n" and "0 \<le> v" and "v < n" and "0 \<le> x" and "x < n"
  shows "\<exists>g0 g. new_AdjacencyMatrix (Some n) = Inr g0
           \<and> adjacencyMatrix g0 = replicate (nat n) (Some 0)
           \<and> AM_setEdge g0 u v (Some w) = Inr g
           \<and> AM_weight g x v = Inr (Some w)"
  using assms
  by (simp add: new_AdjacencyMatrix_def new_row_def AM_setEdge_def AM_size_def set_cell_def
        AM_weight_def arr_get_replicate arr_get_arr_set_same Let_def)

theorem C9_matrix_rows_alias_witness:
  "\<exists>g0 g. new_AdjacencyMatrix (Some 3) = Inr g0
     \<and> adjacencyMatrix g0 = [Some 0, Some 0, Some 0]
     \<and> AM_setEdge g0 0 1 (Some (Fin 7)) = Inr g
     \<and> AM_weight g 2 1 = Inr (Some (Fin 7))"
  using C9_matrix_rows_alias [of 3 0 1 2 "Fin 7"]
  by (simp add: numeral_3_eq_3)


section \<open>Properties of the indexed priority queue\<close>

text \<open>
  C4 (the defect). \<^verbatim>\<open>enqueue\<close> records the index of the entry it inserted and
  \<^verbatim>\<open>dequeue\<close> deletes the entry it polled; neither corrects the map for the entries the
  heap moved on the way. After \<^verbatim>\<open>enqueue('a', 2); enqueue('b', 1); enqueue('c', 3)\<close> the
  map says \<open>a\<close> is at index 0 while it is at index 1; after
  \<^verbatim>\<open>enqueue('a', 1); enqueue('b', 2); enqueue('c', 3); dequeue()\<close> it says \<open>b\<close> is at 1 and
  \<open>c\<close> at 2 while they are at 0 and 1.
\<close>

theorem C4_map_goes_stale:
  "ipq_observe [Enqueue ''a'' 2, Enqueue ''b'' 1, Enqueue ''c'' 3] =
     Some ([(''a'', 0), (''b'', 0), (''c'', 2)], [Some ''b'', Some ''a'', Some ''c''], False)
   \<and> ipq_observe [Enqueue ''a'' 1, Enqueue ''b'' 2, Enqueue ''c'' 3, Dequeue] =
     Some ([(''b'', 1), (''c'', 2)], [Some ''b'', Some ''c''], False)"
  by code_simp

section \<open>Properties of the topological sort\<close>

lemma vis_range: "topSort_inv g st \<Longrightarrow> v \<in> visited_set st \<Longrightarrow> 0 \<le> v \<and> v < graph_size g"
  by (auto simp: topSort_inv_def visited_set_def arr_get_def split: if_splits)

lemma length_fin: "topSort_inv g st \<Longrightarrow> int (length (finished st)) = graph_size g - 1 - currentIndex st"
  by (auto simp: topSort_inv_def finished_def)

lemma mark_visited:
  assumes "topSort_inv g st" and "0 \<le> w" and "w < graph_size g"
  shows "topSort_inv g (st\<lparr>visited := arr_set (visited st) w (Some True)\<rparr>)"
    and "visited_set (st\<lparr>visited := arr_set (visited st) w (Some True)\<rparr>) = insert w (visited_set st)"
    and "finished (st\<lparr>visited := arr_set (visited st) w (Some True)\<rparr>) = finished st"
proof -
  let ?st = "st\<lparr>visited := arr_set (visited st) w (Some True)\<rparr>"
  have len: "length (visited st) = nat (graph_size g)" using assms(1) by (simp add: topSort_inv_def)
  have set: "arr_set (visited st) w (Some True) = (visited st)[nat w := Some True]"
    using assms(2,3) len by (simp add: arr_set_def)
  show f: "finished ?st = finished st" by (simp add: finished_def)
  show v: "visited_set ?st = insert w (visited_set st)"
  proof (intro set_eqI iffI)
    fix x assume "x \<in> visited_set ?st"
    then show "x \<in> insert w (visited_set st)"
      using assms(2,3) len unfolding visited_set_def set
      by (cases "x = w") (auto simp: arr_get_def nth_list_update split: if_splits)
  next
    fix x assume "x \<in> insert w (visited_set st)"
    then show "x \<in> visited_set ?st"
      using assms(2,3) len unfolding visited_set_def set
      by (cases "x = w") (auto simp: arr_get_def nth_list_update split: if_splits)
  qed
  show "topSort_inv g ?st"
    using assms(1) unfolding topSort_inv_def f v by (auto simp: set)
qed

lemma finish_vertex:
  assumes "topSort_inv g st" and "0 \<le> currentIndex st" and "v \<in> visited_set st" and "v \<notin> set (finished st)"
    and "succs g v \<subseteq> set (finished st)"
  shows "topSort_inv g (st\<lparr>order := arr_set (order st) (currentIndex st) (Some v),
                    currentIndex := currentIndex st - 1\<rparr>)"
    and "finished (st\<lparr>order := arr_set (order st) (currentIndex st) (Some v),
                 currentIndex := currentIndex st - 1\<rparr>) = v # finished st"
    and "visited_set (st\<lparr>order := arr_set (order st) (currentIndex st) (Some v),
                 currentIndex := currentIndex st - 1\<rparr>) = visited_set st"
proof -
  let ?ci = "currentIndex st"
  let ?st = "st\<lparr>order := arr_set (order st) ?ci (Some v), currentIndex := ?ci - 1\<rparr>"
  have len: "length (order st) = nat (graph_size g)" and lt: "?ci < graph_size g"
    using assms(1) by (simp_all add: topSort_inv_def)
  have k: "nat ?ci < length (order st)" using assms(2) len lt by simp
  have "?ci < int (length (order st))" using len lt by simp
  then have set: "arr_set (order st) ?ci (Some v) = (order st)[nat ?ci := Some v]"
    using assms(2) by (simp add: arr_set_def)
  have suc: "nat (?ci + 1) = Suc (nat ?ci)" using assms(2) by simp
  have dr: "drop (nat ?ci) ((order st)[nat ?ci := Some v]) = Some v # drop (Suc (nat ?ci)) (order st)"
    using k by (simp add: Cons_nth_drop_Suc[symmetric] drop_update_cancel)
  have dr': "drop (nat (currentIndex ?st + 1)) (order ?st) = Some v # drop (nat (?ci + 1)) (order st)"
    using dr suc by (simp add: set)
  show f: "finished ?st = v # finished st" unfolding finished_def dr' by simp
  show v: "visited_set ?st = visited_set st" by (simp add: visited_set_def)
  show "topSort_inv g ?st"
    using assms unfolding topSort_inv_def f v dr'
    by (auto simp: set)
qed

lemma currentIndex_nonneg:
  assumes "topSort_inv g st" and "v \<in> visited_set st" and "v \<notin> set (finished st)"
  shows "0 \<le> currentIndex st"
proof -
  have sub: "set (finished st) \<subseteq> {0 ..< graph_size g} - {v}"
    using assms vis_range[OF assms(1)] by (auto simp: topSort_inv_def)
  have vin: "v \<in> {0 ..< graph_size g}" using vis_range[OF assms(1,2)] by simp
  have "length (finished st) = card (set (finished st))"
    using assms(1) by (simp add: topSort_inv_def distinct_card)
  also have "\<dots> \<le> card ({0 ..< graph_size g} - {v})"
    by (rule card_mono) (use sub in simp_all)
  also have "\<dots> = nat (graph_size g) - 1" using vin by simp
  finally have "length (finished st) \<le> nat (graph_size g) - 1" .
  then have "int (length (finished st)) \<le> graph_size g - 1 - 0" using vin by auto
  then show ?thesis using length_fin[OF assms(1)] by simp
qed

lemma unvisited_mark:
  assumes "w \<in> unvisited g st" and "visited_set st' = insert w (visited_set st)"
  shows "card (unvisited g st') < card (unvisited g st)"
proof -
  have "unvisited g st' = unvisited g st - {w}"
    using assms(2) by (auto simp: unvisited_def)
  moreover have "finite (unvisited g st)" by (simp add: unvisited_def)
  ultimately show ?thesis using assms(1) card_Diff1_less[of "unvisited g st" w] by simp
qed

lemma unvisited_mono:
  assumes "visited_set st \<subseteq> visited_set st'"
  shows "card (unvisited g st') \<le> card (unvisited g st)"
  by (rule card_mono) (use assms in \<open>auto simp: unvisited_def\<close>)

lemma topSort_correct:
  "well_formed g \<Longrightarrow> acyclic (graph_edges g) \<Longrightarrow> topSort_pre g vertex st \<Longrightarrow>
     card (unvisited g st) < fuel \<Longrightarrow>
     \<exists>st'. topSort fuel g vertex st = Some (Inr st') \<and> topSort_inv g st' \<and> visited_set st \<subseteq> visited_set st' \<and>
        set (finished st') = insert vertex (set (finished st) \<union> (visited_set st' - visited_set st))"
  and
  "well_formed g \<Longrightarrow> acyclic (graph_edges g) \<Longrightarrow> topSort_pre g v st \<Longrightarrow> set ns \<subseteq> succs g v \<Longrightarrow>
     card (unvisited g st) \<le> fuel \<Longrightarrow>
     \<exists>st'. topSort_neighbors fuel g ns st = Some (Inr st') \<and> neighbors_post g st st' \<and>
        set ns \<subseteq> set (finished st')"
proof (induction fuel g vertex st and fuel g ns st arbitrary: and v rule: topSort_topSort_neighbors.induct)
  case (1 graph vertex st)
  then show ?case by simp
next
  case (2 fuel graph vertex st)
  have topSort_inv: "topSort_inv graph st" and vv: "vertex \<in> visited_set st" and vf: "vertex \<notin> set (finished st)"
    using "2.prems"(3) by (simp_all add: topSort_pre_def)
  have rng: "0 \<le> vertex \<and> vertex < graph_size graph" using vis_range[OF topSort_inv vv] .
  then obtain ns where ns: "graph_neighbors graph vertex = Inr ns"
    using "2.prems"(1) unfolding well_formed_def by blast
  have sub: "set ns \<subseteq> succs graph vertex" by (simp add: succs_def ns)
  have "\<exists>st'. topSort_neighbors fuel graph ns st = Some (Inr st') \<and> neighbors_post graph st st' \<and>
        set ns \<subseteq> set (finished st')"
    by (rule "2.IH"[OF ns "2.prems"(1,2,3) sub]) (use "2.prems"(4) in simp)
  then obtain st1 where run: "topSort_neighbors fuel graph ns st = Some (Inr st1)"
    and p: "neighbors_post graph st st1" and fin1: "set ns \<subseteq> set (finished st1)"
    by (elim exE conjE)
  have inv1: "topSort_inv graph st1" and mono: "visited_set st \<subseteq> visited_set st1"
    and f1: "set (finished st1) = set (finished st) \<union> (visited_set st1 - visited_set st)"
    using p by (simp_all add: neighbors_post_def)
  have vv1: "vertex \<in> visited_set st1" using vv mono by blast
  have vf1: "vertex \<notin> set (finished st1)" using vf vv f1 by blast
  have ci: "0 \<le> currentIndex st1" by (rule currentIndex_nonneg[OF inv1 vv1 vf1])
  have sc: "succs graph vertex \<subseteq> set (finished st1)" using fin1 by (simp add: succs_def ns)
  let ?st' = "st1\<lparr>order := arr_set (order st1) (currentIndex st1) (Some vertex),
                  currentIndex := currentIndex st1 - 1\<rparr>"
  note fv = finish_vertex[OF inv1 ci vv1 vf1 sc]
  have res: "topSort (Suc fuel) graph vertex st = Some (Inr ?st')"
    by (simp add: ns run)
  have "topSort_inv graph ?st'" by (rule fv(1))
  moreover have "visited_set st \<subseteq> visited_set ?st'" unfolding fv(3) by (rule mono)
  moreover have "set (finished ?st') = insert vertex (set (finished st) \<union> (visited_set ?st' - visited_set st))"
    unfolding fv(2) fv(3) using f1 by simp
  ultimately show ?case using res by blast
next
  case (3 fuel graph st)
  then show ?case by (simp add: neighbors_post_def topSort_pre_def)
next
  case (4 fuel graph neighbor rest st)
  have topSort_inv: "topSort_inv graph st" and vv: "v \<in> visited_set st" and vf: "v \<notin> set (finished st)"
    and act: "\<forall>a \<in> visited_set st - set (finished st). (a, v) \<in> (graph_edges graph)\<^sup>*"
    using "4.prems"(3) by (simp_all add: topSort_pre_def)
  have rng: "0 \<le> v \<and> v < graph_size graph" using vis_range[OF topSort_inv vv] .
  have nb: "neighbor \<in> succs graph v" and rest: "set rest \<subseteq> succs graph v"
    using "4.prems"(4) by simp_all
  have edge: "(v, neighbor) \<in> graph_edges graph"
    using rng nb by (simp add: graph_edges_def)
  show ?case
  proof (cases "arr_get (visited st) neighbor = Some True")
    case True
    then have nv: "neighbor \<in> visited_set st" by (simp add: visited_set_def)
    have nf: "neighbor \<in> set (finished st)"
    proof (rule ccontr)
      assume "neighbor \<notin> set (finished st)"
      then have "(neighbor, v) \<in> (graph_edges graph)\<^sup>*" using act nv by blast
      then have "(v, v) \<in> (graph_edges graph)\<^sup>+" using edge by (rule rtrancl_into_trancl2[rotated])
      then show False using "4.prems"(2) by (simp add: acyclic_def)
    qed
    have "\<exists>st'. topSort_neighbors fuel graph rest st = Some (Inr st') \<and> neighbors_post graph st st' \<and>
        set rest \<subseteq> set (finished st')"
      by (rule "4.IH"(1)[OF True "4.prems"(1,2,3) rest "4.prems"(5)])
    then obtain st' where run: "topSort_neighbors fuel graph rest st = Some (Inr st')"
      and p: "neighbors_post graph st st'" and fr: "set rest \<subseteq> set (finished st')"
      by (elim exE conjE)
    have "neighbor \<in> set (finished st')" using nf p by (auto simp: neighbors_post_def)
    then have "set (neighbor # rest) \<subseteq> set (finished st')" using fr by simp
    moreover have "topSort_neighbors fuel graph (neighbor # rest) st = Some (Inr st')"
      using True run by simp
    ultimately show ?thesis using p by blast
  next
    case False
    then have nnv: "neighbor \<notin> visited_set st" by (simp add: visited_set_def)
    have nrng: "0 \<le> neighbor \<and> neighbor < graph_size graph"
      using "4.prems"(1) rng nb unfolding well_formed_def succs_def
      by (auto split: sum.splits)
    let ?sm = "st\<lparr>visited := arr_set (visited st) neighbor (Some True)\<rparr>"
    have invm: "topSort_inv graph ?sm" and vism: "visited_set ?sm = insert neighbor (visited_set st)"
      and finm: "finished ?sm = finished st"
      using mark_visited[OF topSort_inv] nrng by simp_all
    have nfin: "neighbor \<notin> set (finished st)" using nnv topSort_inv by (auto simp: topSort_inv_def)
    have prem: "topSort_pre graph neighbor ?sm"
      unfolding topSort_pre_def vism finm
    proof (intro conjI ballI)
      show "topSort_inv graph ?sm" by (rule invm)
      show "neighbor \<in> insert neighbor (visited_set st)" by simp
      show "neighbor \<notin> set (finished st)" by (rule nfin)
      fix a assume a: "a \<in> insert neighbor (visited_set st) - set (finished st)"
      show "(a, neighbor) \<in> (graph_edges graph)\<^sup>*"
      proof (cases "a = neighbor")
        case True then show ?thesis by simp
      next
        case False
        then have "(a, v) \<in> (graph_edges graph)\<^sup>*" using a act by blast
        then show ?thesis using edge by (rule rtrancl_into_rtrancl)
      qed
    qed
    have nun: "neighbor \<in> unvisited graph st" using nrng nnv by (simp add: unvisited_def)
    have cardm: "card (unvisited graph ?sm) < fuel"
      using unvisited_mark[OF nun vism] "4.prems"(5) by simp
    have "\<exists>st'. topSort fuel graph neighbor ?sm = Some (Inr st') \<and> topSort_inv graph st' \<and>
        visited_set ?sm \<subseteq> visited_set st' \<and>
        set (finished st') = insert neighbor (set (finished ?sm) \<union> (visited_set st' - visited_set ?sm))"
      by (rule "4.IH"(2)[OF False "4.prems"(1,2) prem cardm])
    then obtain st1 where run1: "topSort fuel graph neighbor ?sm = Some (Inr st1)"
      and inv1: "topSort_inv graph st1" and mono1: "visited_set ?sm \<subseteq> visited_set st1"
      and f1: "set (finished st1) = insert neighbor (set (finished ?sm) \<union> (visited_set st1 - visited_set ?sm))"
      by (elim exE conjE)
    have mono1': "insert neighbor (visited_set st) \<subseteq> visited_set st1" using mono1 unfolding vism .
    have f1': "set (finished st1) = insert neighbor (set (finished st) \<union> (visited_set st1 - insert neighbor (visited_set st)))"
      using f1 unfolding vism finm .
    have pre1: "topSort_pre graph v st1"
      unfolding topSort_pre_def
    proof (intro conjI ballI)
      show "topSort_inv graph st1" by (rule inv1)
      show "v \<in> visited_set st1" using vv mono1' by blast
      show "v \<notin> set (finished st1)" using vf vv nnv unfolding f1' by blast
      fix a assume "a \<in> visited_set st1 - set (finished st1)"
      then have "a \<in> visited_set st - set (finished st)" unfolding f1' by blast
      then show "(a, v) \<in> (graph_edges graph)\<^sup>*" using act by blast
    qed
    have "visited_set st \<subseteq> visited_set st1" using mono1' by blast
    then have card1: "card (unvisited graph st1) \<le> fuel"
      using unvisited_mono[of st st1 graph] "4.prems"(5) by simp
    have "\<exists>st'. topSort_neighbors fuel graph rest st1 = Some (Inr st') \<and> neighbors_post graph st1 st' \<and>
        set rest \<subseteq> set (finished st')"
      by (rule "4.IH"(3)[OF False run1 _ "4.prems"(1,2) pre1 rest card1]) simp
    then obtain st' where run: "topSort_neighbors fuel graph rest st1 = Some (Inr st')"
      and p: "neighbors_post graph st1 st'" and fr: "set rest \<subseteq> set (finished st')"
      by (elim exE conjE)
    have inv': "topSort_inv graph st'" and mono': "visited_set st1 \<subseteq> visited_set st'"
      and f': "set (finished st') = set (finished st1) \<union> (visited_set st' - visited_set st1)"
      using p by (simp_all add: neighbors_post_def)
    have res: "topSort_neighbors fuel graph (neighbor # rest) st = Some (Inr st')"
      using False run1 run by simp
    have "neighbors_post graph st st'"
      unfolding neighbors_post_def
    proof (intro conjI)
      show "topSort_inv graph st'" by (rule inv')
      show "visited_set st \<subseteq> visited_set st'" using mono1' mono' by blast
      show "set (finished st') = set (finished st) \<union> (visited_set st' - visited_set st)"
        unfolding f' f1' using mono1' mono' nnv by blast
    qed
    moreover have "set (neighbor # rest) \<subseteq> set (finished st')"
      using fr unfolding f' f1' by auto
    ultimately show ?thesis using res by blast
  qed
qed

lemma tsorted_positions:
  "tsorted g L \<Longrightarrow> u \<in> set L \<Longrightarrow> v \<in> succs g u \<Longrightarrow>
     \<exists>i j. i < j \<and> j < length L \<and> L ! i = u \<and> L ! j = v"
proof (induction L)
  case Nil
  then show ?case by simp
next
  case (Cons x ys)
  show ?case
  proof (cases "u = x")
    case True
    then have "v \<in> set ys" using Cons.prems by auto
    then obtain j where "j < length ys" "ys ! j = v" by (auto simp: in_set_conv_nth)
    then have "0 < Suc j \<and> Suc j < length (x # ys) \<and> (x # ys) ! 0 = u \<and> (x # ys) ! Suc j = v"
      using True by simp
    then show ?thesis by blast
  next
    case False
    then have "u \<in> set ys" and "tsorted g ys" using Cons.prems by auto
    then obtain i j where "i < j" "j < length ys" "ys ! i = u" "ys ! j = v"
      using Cons.IH Cons.prems(3) by blast
    then have "Suc i < Suc j \<and> Suc j < length (x # ys) \<and> (x # ys) ! Suc i = u \<and> (x # ys) ! Suc j = v"
      by simp
    then show ?thesis by blast
  qed
qed

lemma execute_vertices_correct:
  "well_formed g \<Longrightarrow> acyclic (graph_edges g) \<Longrightarrow> topSort_inv g st \<Longrightarrow> visited_set st = set (finished st) \<Longrightarrow>
     set vs \<subseteq> {0 ..< graph_size g} \<Longrightarrow> card (unvisited g st) \<le> fuel \<Longrightarrow>
     \<exists>st'. execute_vertices fuel g vs st = Some (Inr st') \<and> topSort_inv g st' \<and>
        visited_set st' = set (finished st') \<and> visited_set st \<subseteq> visited_set st' \<and> set vs \<subseteq> visited_set st'"
proof (induction vs arbitrary: st)
  case Nil
  then show ?case by simp
next
  case (Cons vertex rest)
  have rest: "set rest \<subseteq> {0 ..< graph_size g}" using Cons.prems(5) by simp
  show ?case
  proof (cases "arr_get (visited st) vertex = Some True")
    case True
    then have vv: "vertex \<in> visited_set st" by (simp add: visited_set_def)
    have "\<exists>st'. execute_vertices fuel g rest st = Some (Inr st') \<and> topSort_inv g st' \<and>
        visited_set st' = set (finished st') \<and> visited_set st \<subseteq> visited_set st' \<and> set rest \<subseteq> visited_set st'"
      by (rule Cons.IH[OF Cons.prems(1,2,3,4) rest Cons.prems(6)])
    then obtain st' where run: "execute_vertices fuel g rest st = Some (Inr st')"
      and r: "topSort_inv g st'" "visited_set st' = set (finished st')" "visited_set st \<subseteq> visited_set st'" "set rest \<subseteq> visited_set st'"
      by (elim exE conjE)
    have "execute_vertices fuel g (vertex # rest) st = Some (Inr st')" using True run by simp
    moreover have "set (vertex # rest) \<subseteq> visited_set st'" using vv r(3,4) by auto
    ultimately show ?thesis using r(1,2,3) by blast
  next
    case False
    then have nnv: "vertex \<notin> visited_set st" by (simp add: visited_set_def)
    have rng: "0 \<le> vertex \<and> vertex < graph_size g" using Cons.prems(5) by simp
    let ?sm = "st\<lparr>visited := arr_set (visited st) vertex (Some True)\<rparr>"
    have invm: "topSort_inv g ?sm" and vism: "visited_set ?sm = insert vertex (visited_set st)"
      and finm: "finished ?sm = finished st"
      using mark_visited[OF Cons.prems(3)] rng by simp_all
    have prem: "topSort_pre g vertex ?sm"
      unfolding topSort_pre_def vism finm using invm nnv Cons.prems(4) by auto
    have nun: "vertex \<in> unvisited g st" using rng nnv by (simp add: unvisited_def)
    have cardm: "card (unvisited g ?sm) < fuel"
      using unvisited_mark[OF nun vism] Cons.prems(6) by simp
    have "\<exists>st'. topSort fuel g vertex ?sm = Some (Inr st') \<and> topSort_inv g st' \<and>
        visited_set ?sm \<subseteq> visited_set st' \<and>
        set (finished st') = insert vertex (set (finished ?sm) \<union> (visited_set st' - visited_set ?sm))"
      by (rule topSort_correct(1)[OF Cons.prems(1,2) prem cardm])
    then obtain st1 where run1: "topSort fuel g vertex ?sm = Some (Inr st1)"
      and inv1: "topSort_inv g st1" and mono1: "visited_set ?sm \<subseteq> visited_set st1"
      and f1: "set (finished st1) = insert vertex (set (finished ?sm) \<union> (visited_set st1 - visited_set ?sm))"
      by (elim exE conjE)
    have mono1': "insert vertex (visited_set st) \<subseteq> visited_set st1" using mono1 unfolding vism .
    have f1': "set (finished st1) = insert vertex (set (finished st) \<union> (visited_set st1 - insert vertex (visited_set st)))"
      using f1 unfolding vism finm .
    have eq1: "visited_set st1 = set (finished st1)"
      unfolding f1' using mono1' Cons.prems(4) by blast
    have "visited_set st \<subseteq> visited_set st1" using mono1' by blast
    then have card1: "card (unvisited g st1) \<le> fuel"
      using unvisited_mono[of st st1 g] Cons.prems(6) by simp
    have "\<exists>st'. execute_vertices fuel g rest st1 = Some (Inr st') \<and> topSort_inv g st' \<and>
        visited_set st' = set (finished st') \<and> visited_set st1 \<subseteq> visited_set st' \<and> set rest \<subseteq> visited_set st'"
      by (rule Cons.IH[OF Cons.prems(1,2) inv1 eq1 rest card1])
    then obtain st' where run: "execute_vertices fuel g rest st1 = Some (Inr st')"
      and r: "topSort_inv g st'" "visited_set st' = set (finished st')" "visited_set st1 \<subseteq> visited_set st'" "set rest \<subseteq> visited_set st'"
      by (elim exE conjE)
    have "execute_vertices fuel g (vertex # rest) st = Some (Inr st')"
      using False run1 run by simp
    moreover have "set (vertex # rest) \<subseteq> visited_set st'" using mono1' r(3,4) by auto
    moreover have "visited_set st \<subseteq> visited_set st'" using mono1' r(3) by blast
    ultimately show ?thesis using r(1,2) by blast
  qed
qed

lemma initial_state_inv:
  assumes "0 \<le> graph_size g"
  shows "topSort_inv g (initial_state g)" and "visited_set (initial_state g) = {}" and "finished (initial_state g) = []"
proof -
  show f: "finished (initial_state g) = []" using assms by (simp add: finished_def initial_state_def)
  show v: "visited_set (initial_state g) = {}"
    by (auto simp: visited_set_def initial_state_def arr_get_def)
  show "topSort_inv g (initial_state g)"
    unfolding topSort_inv_def f v using assms by (simp add: initial_state_def)
qed

lemma map_Some_the: "None \<notin> set xs \<Longrightarrow> map Some (map the xs) = xs"
  by (induction xs) auto

lemma execute_correct:
  assumes wf: "well_formed g" and ac: "acyclic (graph_edges g)" and fuel: "nat (graph_size g) \<le> fuel"
  shows "\<exists>vs. execute fuel g = Some (Inr (map Some vs)) \<and> int (length vs) = graph_size g \<and>
           distinct vs \<and> set vs = {0 ..< graph_size g} \<and> tsorted g vs"
proof -
  have n0: "0 \<le> graph_size g" using wf by (simp add: well_formed_def)
  note init = initial_state_inv[OF n0]
  have "card (unvisited g (initial_state g)) = nat (graph_size g)"
    by (simp add: unvisited_def init(2))
  then have card0: "card (unvisited g (initial_state g)) \<le> fuel" using fuel by simp
  have vs: "set [0 .. graph_size g - 1] \<subseteq> {0 ..< graph_size g}" by auto
  have eq0: "visited_set (initial_state g) = set (finished (initial_state g))" by (simp add: init)
  have "\<exists>st'. execute_vertices fuel g [0 .. graph_size g - 1] (initial_state g) = Some (Inr st') \<and>
        topSort_inv g st' \<and> visited_set st' = set (finished st') \<and> visited_set (initial_state g) \<subseteq> visited_set st' \<and>
        set [0 .. graph_size g - 1] \<subseteq> visited_set st'"
    by (rule execute_vertices_correct[OF wf ac init(1) eq0 vs card0])
  then obtain st' where run: "execute_vertices fuel g [0 .. graph_size g - 1] (initial_state g) = Some (Inr st')"
    and inv': "topSort_inv g st'" and eq': "visited_set st' = set (finished st')"
    and all: "set [0 .. graph_size g - 1] \<subseteq> visited_set st'"
    by (elim exE conjE)
  have res: "execute fuel g = Some (Inr (order st'))"
    using run by (simp add: execute_def initial_state_def)
  have setf: "set (finished st') = {0 ..< graph_size g}"
  proof (intro equalityI subsetI)
    fix x assume "x \<in> set (finished st')"
    then have "x \<in> visited_set st'" using eq' by simp
    then show "x \<in> {0 ..< graph_size g}" using vis_range[OF inv'] by simp
  next
    fix x assume "x \<in> {0 ..< graph_size g}"
    then have "x \<in> set [0 .. graph_size g - 1]" by simp
    then show "x \<in> set (finished st')" using all eq' by blast
  qed
  have dist: "distinct (finished st')" and ts: "tsorted g (finished st')"
    and lo: "length (order st') = nat (graph_size g)"
    and nn: "None \<notin> set (drop (nat (currentIndex st' + 1)) (order st'))"
    and cilo: "- 1 \<le> currentIndex st'"
    using inv' by (simp_all add: topSort_inv_def)
  have "length (finished st') = card (set (finished st'))" using dist by (simp add: distinct_card)
  then have lenf: "length (finished st') = nat (graph_size g)" unfolding setf by simp
  then have "currentIndex st' = - 1" using length_fin[OF inv'] n0 by simp
  then have finall: "finished st' = map the (order st')" and nn': "None \<notin> set (order st')"
    using nn by (simp_all add: finished_def)
  have "map Some (finished st') = order st'"
    unfolding finall by (rule map_Some_the[OF nn'])
  then have "execute fuel g = Some (Inr (map Some (finished st')))" using res by simp
  moreover have "int (length (finished st')) = graph_size g" using lenf n0 by simp
  ultimately show ?thesis using dist setf ts by blast
qed

text \<open>The graph of the test is a directed graph without a cycle: every edge goes upwards.\<close>

lemma test_graph_well_formed: "well_formed test_graph"
  by (auto simp: well_formed_def test_graph_def)

lemma test_graph_edges: "graph_edges test_graph = {(0, 1), (0, 2), (1, 3), (2, 3), (3, 4)}"
  by (auto simp: graph_edges_def succs_def test_graph_def split: if_splits)

lemma test_graph_acyclic: "acyclic (graph_edges test_graph)"
  by (rule acyclicI_order[where f = uminus]) (auto simp: test_graph_edges)

text \<open>On the graph of the test the order is \<open>0, 2, 1, 3, 4\<close>, one of the two the test accepts.\<close>

lemma test_graph_order: "execute 5 test_graph = Some (Inr [Some 0, Some 2, Some 1, Some 3, Some 4])"
  by code_simp

text \<open>
  C7. On a directed graph without a cycle, \<^verbatim>\<open>execute(graph)\<close> returns (no error, and a nesting
  of \<^verbatim>\<open>topSort\<close> calls no deeper than the number of vertices); the array returned has
  \<^verbatim>\<open>graph.size()\<close> cells, holds every vertex of the graph exactly once, and for every edge
  \<open>u \<rightarrow> v\<close> of the graph \<open>u\<close> stands at a smaller index than \<open>v\<close>.
\<close>

theorem C7_topological_order:
  assumes "well_formed g" and "acyclic (graph_edges g)" and "nat (graph_size g) \<le> fuel"
  shows "\<exists>vs. execute fuel g = Some (Inr (map Some vs)) \<and> int (length vs) = graph_size g \<and>
           distinct vs \<and> set vs = {0 ..< graph_size g} \<and>
           (\<forall>u v. (u, v) \<in> graph_edges g \<longrightarrow>
              (\<exists>i j. i < j \<and> j < length vs \<and> vs ! i = u \<and> vs ! j = v))"
proof -
  from execute_correct[OF assms] obtain vs where
    run: "execute fuel g = Some (Inr (map Some vs))" and len: "int (length vs) = graph_size g"
    and dist: "distinct vs" and setv: "set vs = {0 ..< graph_size g}" and ts: "tsorted g vs"
    by (elim exE conjE)
  have "\<forall>u v. (u, v) \<in> graph_edges g \<longrightarrow>
              (\<exists>i j. i < j \<and> j < length vs \<and> vs ! i = u \<and> vs ! j = v)"
  proof (intro allI impI)
    fix u v assume "(u, v) \<in> graph_edges g"
    then have "u \<in> set vs" and "v \<in> succs g u" unfolding setv by (simp_all add: graph_edges_def)
    then show "\<exists>i j. i < j \<and> j < length vs \<and> vs ! i = u \<and> vs ! j = v"
      by (rule tsorted_positions[OF ts])
  qed
  then show ?thesis using run len dist setv by blast
qed

text \<open>The same on the graph of the test, whose three hypotheses hold.\<close>

theorem C7_topological_order_witness:
  "well_formed test_graph \<and> acyclic (graph_edges test_graph) \<and> nat (graph_size test_graph) \<le> 5 \<and>
   (\<exists>vs. execute 5 test_graph = Some (Inr (map Some vs)) \<and> int (length vs) = graph_size test_graph \<and>
           distinct vs \<and> set vs = {0 ..< graph_size test_graph} \<and>
           (\<forall>u v. (u, v) \<in> graph_edges test_graph \<longrightarrow>
              (\<exists>i j. i < j \<and> j < length vs \<and> vs ! i = u \<and> vs ! j = v)))"
proof -
  have f: "nat (graph_size test_graph) \<le> 5" by (simp add: test_graph_def)
  show ?thesis
    using C7_topological_order[OF test_graph_well_formed test_graph_acyclic f]
      test_graph_well_formed test_graph_acyclic f by blast
qed

end
